theory Spec2Isabelle
  imports Main "HOL-Library.Signed_Division"
begin

section \<open>Integers of the source\<close>

text \<open>
  \<^verbatim>\<open>year_t\<close> and \<^verbatim>\<open>diff_t\<close> are \<^verbatim>\<open>std::int_fast64_t\<close>. They are modelled as \<open>int\<close>:
  the functions below compute on mathematical integers, and agree with the C++ code on
  every run in which no 64-bit operation overflows (signed overflow is undefined in C++).
  The section on 64-bit integers below repeats the stepping and the differences with the
  overflows wrapped modulo 2^64, as two's-complement hardware computes them. The operators \<^verbatim>\<open>/\<close> and \<^verbatim>\<open>%\<close> of C++
  truncate towards zero: they are \<open>sdiv\<close> and \<open>smod\<close>, never \<open>div\<close> and \<open>mod\<close>.
  A C++ \<^verbatim>\<open>bool\<close> used as a number is \<open>of_bool\<close>.
\<close>

definition int64_min :: int where
  "int64_min = - (2 ^ 63)"

definition int64_max :: int where
  "int64_max = 2 ^ 63 - 1"

text \<open>
  \<^verbatim>\<open>static_cast<month_t>\<close> and its siblings convert to \<^verbatim>\<open>std::int_fast8_t\<close>. Where that
  type has 8 bits the conversion keeps the value modulo 256 in [-128, 127]; a wider type
  keeps more values. \<open>narrow8\<close> is the 8-bit conversion.
\<close>

definition narrow8 :: "int \<Rightarrow> int" where
  "narrow8 x = (x + 128) mod 256 - 128"

text \<open>
  Reading a constant table \<^verbatim>\<open>t[i]\<close>: \<open>None\<close> stands for a read outside the table, which
  C++ leaves undefined.
\<close>

definition table_at :: "'a list \<Rightarrow> int \<Rightarrow> 'a option" where
  "table_at t i = (if 0 \<le> i \<and> i < int (length t) then Some (t ! nat i) else None)"

section \<open>Fields and unit tags\<close>

text \<open>
  \<^verbatim>\<open>struct fields { y; m; d; hh; mm; ss; }\<close>. The record's fields carry the names of the
  constructor's parameters, which are the names of the accessors of \<^verbatim>\<open>civil_time\<close> too.
\<close>

record fields =
  year :: int
  month :: int
  day :: int
  hour :: int
  minute :: int
  second :: int

definition mk_fields :: "int \<Rightarrow> int \<Rightarrow> int \<Rightarrow> int \<Rightarrow> int \<Rightarrow> int \<Rightarrow> fields" where
  "mk_fields y m d hh mm ss =
     \<lparr>year = y, month = m, day = d, hour = hh, minute = mm, second = ss\<rparr>"

datatype tag = second_tag | minute_tag | hour_tag | day_tag | month_tag | year_tag

section \<open>Field normalization\<close>

definition is_leap_year :: "int \<Rightarrow> bool" where
  "is_leap_year y \<longleftrightarrow> y smod 4 = 0 \<and> (y smod 100 \<noteq> 0 \<or> y smod 400 = 0)"

text \<open>
  The \<^verbatim>\<open>static_cast<int>\<close> of \<open>year_index\<close> converts a remainder modulo 400, which every
  \<^verbatim>\<open>int\<close> holds: it changes nothing.
\<close>

definition year_index :: "int \<Rightarrow> int \<Rightarrow> int" where
  "year_index y m =
     (let yi = (y + of_bool (m > 2)) smod 400 in if yi < 0 then yi + 400 else yi)"

definition days_per_century :: "int \<Rightarrow> int" where
  "days_per_century yi = 36524 + of_bool (yi = 0 \<or> yi > 300)"

definition days_per_4years :: "int \<Rightarrow> int" where
  "days_per_4years yi = 1460 + of_bool (yi = 0 \<or> yi > 300 \<or> (yi - 1) smod 100 < 96)"

definition days_per_year :: "int \<Rightarrow> int \<Rightarrow> int" where
  "days_per_year y m = (if is_leap_year (y + of_bool (m > 2)) then 366 else 365)"

definition k_days_per_month :: "int list" where
  "k_days_per_month = [-1, 31, 28, 31, 30, 31, 30, 31, 31, 30, 31, 30, 31]"

definition days_per_month :: "int \<Rightarrow> int \<Rightarrow> int option" where
  "days_per_month y m =
     map_option (\<lambda>k. k + of_bool (m = 2 \<and> is_leap_year y)) (table_at k_days_per_month m)"

subsection \<open>The loops of \<open>n_day\<close>\<close>

text \<open>
  Each \<^verbatim>\<open>for (;;)\<close> loop of \<open>n_day\<close> is a recursive function on the variables the loop
  changes. The last argument \<open>k\<close> is a ghost counter, absent from the source: it counts
  the passes through the loop that do not leave at \<^verbatim>\<open>break\<close>, that is the number of
  centuries, 4-year blocks, years or months the loop advances by.
\<close>

function century_loop :: "int \<Rightarrow> int \<Rightarrow> int \<Rightarrow> nat \<Rightarrow> int \<times> int \<times> int \<times> nat" where
  "century_loop d ey yi k =
     (let n = days_per_century yi in
      if d \<le> n then (d, ey, yi, k)
      else century_loop (d - n) (ey + 100)
             (if yi + 100 \<ge> 400 then yi + 100 - 400 else yi + 100) (Suc k))"
  by pat_completeness auto
termination
  by (relation "measure (\<lambda>(d, ey, yi, k). nat d)") (auto simp: days_per_century_def of_bool_def)

function years4_loop :: "int \<Rightarrow> int \<Rightarrow> int \<Rightarrow> nat \<Rightarrow> int \<times> int \<times> int \<times> nat" where
  "years4_loop d ey yi k =
     (let n = days_per_4years yi in
      if d \<le> n then (d, ey, yi, k)
      else years4_loop (d - n) (ey + 4)
             (if yi + 4 \<ge> 400 then yi + 4 - 400 else yi + 4) (Suc k))"
  by pat_completeness auto
termination
  by (relation "measure (\<lambda>(d, ey, yi, k). nat d)") (auto simp: days_per_4years_def of_bool_def)

function year_loop :: "int \<Rightarrow> int \<Rightarrow> int \<Rightarrow> nat \<Rightarrow> int \<times> int \<times> nat" where
  "year_loop d ey m k =
     (let n = days_per_year ey m in
      if d \<le> n then (d, ey, k)
      else year_loop (d - n) (ey + 1) m (Suc k))"
  by pat_completeness auto
termination
  by (relation "measure (\<lambda>(d, ey, m, k). nat d)") (auto simp: days_per_year_def split: if_splits)

text \<open>
  The month loop reads the table of month lengths: a read outside the table ends the
  model's run with \<open>None\<close>. Entry 0 of the table is -1, so from month 0 the day count
  grows once before the loop reaches month 1.
\<close>

lemma days_per_month_Some:
  assumes dpm: "days_per_month y m = Some n"
  shows "m = 0 \<and> n = -1 \<or> 1 \<le> m \<and> m \<le> 12 \<and> 28 \<le> n \<and> n \<le> 31"
proof -
  from dpm have r: "0 \<le> m" "m \<le> 12"
    by (auto simp: days_per_month_def table_at_def k_days_per_month_def split: if_splits)
  then have "m = 0 \<or> m = 1 \<or> m = 2 \<or> m = 3 \<or> m = 4 \<or> m = 5 \<or> m = 6 \<or> m = 7 \<or> m = 8 \<or>
      m = 9 \<or> m = 10 \<or> m = 11 \<or> m = 12"
    by presburger
  with dpm show ?thesis
    by (auto simp: days_per_month_def table_at_def k_days_per_month_def)
qed

function month_loop :: "int \<Rightarrow> int \<Rightarrow> int \<Rightarrow> nat \<Rightarrow> (int \<times> int \<times> int \<times> nat) option" where
  "month_loop d ey m k =
     (case days_per_month ey m of
        None \<Rightarrow> None
      | Some n \<Rightarrow>
          if d \<le> n then Some (d, ey, m, k)
          else if m + 1 > 12 then month_loop (d - n) (ey + 1) 1 (Suc k)
          else month_loop (d - n) ey (m + 1) (Suc k))"
  by pat_completeness auto
termination
proof (relation "measures [\<lambda>(d, ey, m, k). if m = 0 then 1 else 0, \<lambda>(d, ey, m, k). nat d]",
    goal_cases)
  case 1
  show ?case by simp
next
  case (2 d ey m k n)
  then show ?case using days_per_month_Some [of ey m n] by auto
next
  case (3 d ey m k n)
  then show ?case using days_per_month_Some [of ey m n] by auto
qed

declare century_loop.simps [simp del] years4_loop.simps [simp del]
  year_loop.simps [simp del] month_loop.simps [simp del]

subsection \<open>\<open>n_day\<close>\<close>

text \<open>
  Lines 125 to 167 of the source: the year accumulator \<open>ey\<close> and the day count \<open>d\<close>
  after whole 400-year cycles have been taken out of \<open>cd\<close> and \<open>d\<close>.
\<close>

definition n_day_cycles :: "int \<Rightarrow> int \<Rightarrow> int \<Rightarrow> int \<Rightarrow> int \<times> int" where
  "n_day_cycles y m d cd =
     (let ey = y smod 400;
          ey = ey + (cd sdiv 146097) * 400;
          cd = cd smod 146097;
          (ey, cd) = (if cd < 0 then (ey - 400, cd + 146097) else (ey, cd));
          ey = ey + (d sdiv 146097) * 400;
          d = d smod 146097 + cd
      in if d > 0 then
           (if d > 146097 then (ey + 400, d - 146097) else (ey, d))
         else if d > - 365 then
           (let ey = ey - 1 in (ey, d + days_per_year ey m))
         else (ey - 400, d + 146097))"

text \<open>Lines 169 to 210: whole centuries, 4-year blocks and years.\<close>

definition n_day_years :: "int \<Rightarrow> int \<Rightarrow> int \<Rightarrow> (int \<times> int) \<times> (nat \<times> nat \<times> nat)" where
  "n_day_years ey m d =
     (if d > 365 then
        (let yi = year_index ey m;
             (d, ey, yi, c100) = century_loop d ey yi 0;
             (d, ey, yi, c4) = years4_loop d ey yi 0;
             (d, ey, c1) = year_loop d ey m 0
         in ((ey, d), (c100, c4, c1)))
      else ((ey, d), (0, 0, 0)))"

text \<open>Lines 212 to 227: whole months.\<close>

definition n_day_months :: "int \<Rightarrow> int \<Rightarrow> int \<Rightarrow> (int \<times> int \<times> int \<times> nat) option" where
  "n_day_months ey m d = (if d > 28 then month_loop d ey m 0 else Some (d, ey, m, 0))"

text \<open>
  The whole body of \<open>n_day\<close> up to its \<^verbatim>\<open>return\<close>: the final \<open>ey\<close>, \<open>m\<close> and \<open>d\<close>, and the
  four ghost counters.
\<close>

definition n_day_run ::
  "int \<Rightarrow> int \<Rightarrow> int \<Rightarrow> int \<Rightarrow> ((int \<times> int \<times> int) \<times> (nat \<times> nat \<times> nat \<times> nat)) option" where
  "n_day_run y m d cd =
     (let (ey, d) = n_day_cycles y m d cd;
          ((ey, d), (c100, c4, c1)) = n_day_years ey m d
      in map_option (\<lambda>(d, ey, m, cm). ((ey, m, d), (c100, c4, c1, cm)))
           (n_day_months ey m d))"

definition n_day :: "int \<Rightarrow> int \<Rightarrow> int \<Rightarrow> int \<Rightarrow> int \<Rightarrow> int \<Rightarrow> int \<Rightarrow> fields option" where
  "n_day y m d cd hh mm ss =
     (let oey = y smod 400 in
      map_option (\<lambda>((ey, m, d), _). mk_fields (y + (ey - oey)) m (narrow8 d) hh mm ss)
        (n_day_run y m d cd))"

text \<open>The ghost counters of a call of \<open>n_day\<close>.\<close>

definition n_day_passes :: "int \<Rightarrow> int \<Rightarrow> int \<Rightarrow> int \<Rightarrow> (nat \<times> nat \<times> nat \<times> nat) option" where
  "n_day_passes y m d cd = map_option snd (n_day_run y m d cd)"

subsection \<open>The cascade above \<open>n_day\<close>\<close>

definition n_mon :: "int \<Rightarrow> int \<Rightarrow> int \<Rightarrow> int \<Rightarrow> int \<Rightarrow> int \<Rightarrow> int \<Rightarrow> fields option" where
  "n_mon y m d cd hh mm ss =
     (let (y, m) =
        (if m \<noteq> 12 then
           (let y = y + m sdiv 12;
                m = m smod 12
            in if m \<le> 0 then (y - 1, m + 12) else (y, m))
         else (y, m))
      in n_day y (narrow8 m) d cd hh mm ss)"

definition n_hour :: "int \<Rightarrow> int \<Rightarrow> int \<Rightarrow> int \<Rightarrow> int \<Rightarrow> int \<Rightarrow> int \<Rightarrow> fields option" where
  "n_hour y m d cd hh mm ss =
     (let cd = cd + hh sdiv 24;
          hh = hh smod 24;
          (cd, hh) = (if hh < 0 then (cd - 1, hh + 24) else (cd, hh))
      in n_mon y m d cd (narrow8 hh) mm ss)"

definition n_min :: "int \<Rightarrow> int \<Rightarrow> int \<Rightarrow> int \<Rightarrow> int \<Rightarrow> int \<Rightarrow> int \<Rightarrow> fields option" where
  "n_min y m d hh ch mm ss =
     (let ch = ch + mm sdiv 60;
          mm = mm smod 60;
          (ch, mm) = (if mm < 0 then (ch - 1, mm + 60) else (ch, mm))
      in n_hour y m d (hh sdiv 24 + ch sdiv 24) (hh smod 24 + ch smod 24) (narrow8 mm) ss)"

definition n_sec :: "int \<Rightarrow> int \<Rightarrow> int \<Rightarrow> int \<Rightarrow> int \<Rightarrow> int \<Rightarrow> fields option" where
  "n_sec y m d hh mm ss =
     (if 0 \<le> ss \<and> ss < 60 then
        (let nss = narrow8 ss in
         if 0 \<le> mm \<and> mm < 60 then
           (let nmm = narrow8 mm in
            if 0 \<le> hh \<and> hh < 24 then
              (let nhh = narrow8 hh in
               if 1 \<le> d \<and> d \<le> 28 \<and> 1 \<le> m \<and> m \<le> 12 then
                 (let nd = narrow8 d; nm = narrow8 m
                  in Some (mk_fields y nm nd nhh nmm nss))
               else n_mon y m d 0 nhh nmm nss)
            else n_hour y m d (hh sdiv 24) (hh smod 24) nmm nss)
         else n_min y m d hh (mm sdiv 60) (mm smod 60) nss)
      else
        (let cm = ss sdiv 60;
             ss = ss smod 60;
             (cm, ss) = (if ss < 0 then (cm - 1, ss + 60) else (cm, ss))
         in n_min y m d hh (mm sdiv 60 + cm sdiv 60) (mm smod 60 + cm smod 60) (narrow8 ss)))"

section \<open>Stepping a field\<close>

fun step :: "tag \<Rightarrow> fields \<Rightarrow> int \<Rightarrow> fields option" where
  "step second_tag f n =
     n_sec (year f) (month f) (day f) (hour f) (minute f + n sdiv 60) (second f + n smod 60)"
| "step minute_tag f n =
     n_min (year f) (month f) (day f) (hour f + n sdiv 60) 0 (minute f + n smod 60) (second f)"
| "step hour_tag f n =
     n_hour (year f) (month f) (day f + n sdiv 24) 0 (hour f + n smod 24) (minute f) (second f)"
| "step day_tag f n =
     n_day (year f) (month f) (day f) n (hour f) (minute f) (second f)"
| "step month_tag f n =
     n_mon (year f + n sdiv 12) (month f + n smod 12) (day f) 0 (hour f) (minute f) (second f)"
| "step year_tag f n =
     Some (mk_fields (year f + n) (month f) (day f) (hour f) (minute f) (second f))"

section \<open>Differences\<close>

definition scale_add :: "int \<Rightarrow> int \<Rightarrow> int \<Rightarrow> int" where
  "scale_add v f a = (if v < 0 then ((v + 1) * f + a) - f else ((v - 1) * f + a) + f)"

definition ymd_ord :: "int \<Rightarrow> int \<Rightarrow> int \<Rightarrow> int" where
  "ymd_ord y m d =
     (let eyear = (if m \<le> 2 then y - 1 else y);
          era = (if eyear \<ge> 0 then eyear else eyear - 399) sdiv 400;
          yoe = eyear - era * 400;
          doy = (153 * (m + (if m > 2 then - 3 else 9)) + 2) sdiv 5 + d - 1;
          doe = yoe * 365 + yoe sdiv 4 - yoe sdiv 100 + doy
      in era * 146097 + doe - 719468)"

definition day_difference :: "int \<Rightarrow> int \<Rightarrow> int \<Rightarrow> int \<Rightarrow> int \<Rightarrow> int \<Rightarrow> int" where
  "day_difference y1 m1 d1 y2 m2 d2 =
     (let a_c4_off = y1 smod 400;
          b_c4_off = y2 smod 400;
          c4_diff = (y1 - a_c4_off) - (y2 - b_c4_off);
          delta = ymd_ord a_c4_off m1 d1 - ymd_ord b_c4_off m2 d2;
          (delta, c4_diff) =
            (if c4_diff > 0 \<and> delta < 0 then (delta + 2 * 146097, c4_diff - 2 * 400)
             else if c4_diff < 0 \<and> delta > 0 then (delta - 2 * 146097, c4_diff + 2 * 400)
             else (delta, c4_diff))
      in (c4_diff sdiv 400 * 146097) + delta)"

text \<open>
  The overloads of \<open>difference\<close> call one another from the finer unit to the coarser:
  the rank of the tag decreases.
\<close>

fun tag_rank :: "tag \<Rightarrow> nat" where
  "tag_rank year_tag = 0"
| "tag_rank month_tag = 1"
| "tag_rank day_tag = 2"
| "tag_rank hour_tag = 3"
| "tag_rank minute_tag = 4"
| "tag_rank second_tag = 5"

function difference :: "tag \<Rightarrow> fields \<Rightarrow> fields \<Rightarrow> int" where
  "difference year_tag f1 f2 = year f1 - year f2"
| "difference month_tag f1 f2 =
     scale_add (difference year_tag f1 f2) 12 (month f1 - month f2)"
| "difference day_tag f1 f2 =
     day_difference (year f1) (month f1) (day f1) (year f2) (month f2) (day f2)"
| "difference hour_tag f1 f2 =
     scale_add (difference day_tag f1 f2) 24 (hour f1 - hour f2)"
| "difference minute_tag f1 f2 =
     scale_add (difference hour_tag f1 f2) 60 (minute f1 - minute f2)"
| "difference second_tag f1 f2 =
     scale_add (difference minute_tag f1 f2) 60 (second f1 - second f2)"
  by pat_completeness auto
termination
  by (relation "measure (\<lambda>(T, f1, f2). tag_rank T)") auto

section \<open>Alignment\<close>

fun align :: "tag \<Rightarrow> fields \<Rightarrow> fields" where
  "align second_tag f = f"
| "align minute_tag f = mk_fields (year f) (month f) (day f) (hour f) (minute f) 0"
| "align hour_tag f = mk_fields (year f) (month f) (day f) (hour f) 0 0"
| "align day_tag f = mk_fields (year f) (month f) (day f) 0 0 0"
| "align month_tag f = mk_fields (year f) (month f) 1 0 0 0"
| "align year_tag f = mk_fields (year f) 1 1 0 0 0"

section \<open>The class \<open>civil_time\<close>\<close>

text \<open>
  A \<^verbatim>\<open>civil_time<T>\<close> holds one private member \<^verbatim>\<open>fields f_\<close>. The model keeps the tag \<open>T\<close>
  as the first argument of each operation and the value as its \<open>fields\<close>; the accessors
  \<^verbatim>\<open>year()\<close> to \<^verbatim>\<open>second()\<close> are the selectors of the record.
\<close>

text \<open>The designated constructor \<^verbatim>\<open>civil_time(fields f) : f_(align(T{}, f))\<close>.\<close>

definition civil_time :: "tag \<Rightarrow> fields \<Rightarrow> fields" where
  "civil_time T f = align T f"

text \<open>
  The public constructor
  \<^verbatim>\<open>civil_time(year_t y, diff_t m = 1, diff_t d = 1, diff_t hh = 0, diff_t mm = 0, diff_t ss = 0)\<close>,
  and the same constructor with its default arguments.
\<close>

definition make :: "tag \<Rightarrow> int \<Rightarrow> int \<Rightarrow> int \<Rightarrow> int \<Rightarrow> int \<Rightarrow> int \<Rightarrow> fields option" where
  "make T y m d hh mm ss = map_option (civil_time T) (n_sec y m d hh mm ss)"

definition make_y :: "tag \<Rightarrow> int \<Rightarrow> fields option" where
  "make_y T y = make T y 1 1 0 0 0"

definition make_ymd :: "tag \<Rightarrow> int \<Rightarrow> int \<Rightarrow> int \<Rightarrow> fields option" where
  "make_ymd T y m d = make T y m d 0 0 0"

text \<open>The default constructor \<^verbatim>\<open>civil_time() : f_{1970, 1, 1, 0, 0, 0}\<close>.\<close>

definition civil_default :: fields where
  "civil_default = mk_fields 1970 1 1 0 0 0"

text \<open>Conversion from a \<^verbatim>\<open>civil_time<U>\<close>, implicit or explicit: \<^verbatim>\<open>civil_time(ct.f_)\<close>.\<close>

definition convert :: "tag \<Rightarrow> fields \<Rightarrow> fields" where
  "convert T ct = civil_time T ct"

definition civil_plus :: "tag \<Rightarrow> fields \<Rightarrow> int \<Rightarrow> fields option" where
  "civil_plus T a n = map_option (civil_time T) (step T a n)"

definition civil_minus :: "tag \<Rightarrow> fields \<Rightarrow> int \<Rightarrow> fields option" where
  "civil_minus T a n =
     (if n \<noteq> int64_min then map_option (civil_time T) (step T a (- n))
      else map_option (civil_time T)
             (Option.bind (step T a (- (n + 1))) (\<lambda>f. step T f 1)))"

definition civil_incr :: "tag \<Rightarrow> fields \<Rightarrow> fields option" where
  "civil_incr T a = civil_plus T a 1"

definition civil_decr :: "tag \<Rightarrow> fields \<Rightarrow> fields option" where
  "civil_decr T a = civil_minus T a 1"

definition civil_diff :: "tag \<Rightarrow> fields \<Rightarrow> fields \<Rightarrow> int" where
  "civil_diff T lhs rhs = difference T lhs rhs"

subsection \<open>Relational operators\<close>



definition civil_eq :: "fields \<Rightarrow> fields \<Rightarrow> bool" where
  "civil_eq lhs rhs \<longleftrightarrow>
     year lhs = year rhs \<and> month lhs = month rhs \<and> day lhs = day rhs \<and>
     hour lhs = hour rhs \<and> minute lhs = minute rhs \<and> second lhs = second rhs"

section \<open>Weekdays\<close>

datatype weekday = monday | tuesday | wednesday | thursday | friday | saturday | sunday

definition k_weekday_by_mon_off :: "weekday list" where
  "k_weekday_by_mon_off =
     [monday, tuesday, wednesday, thursday, friday, saturday, sunday,
      monday, tuesday, wednesday, thursday, friday, saturday]"

definition k_weekday_offsets :: "int list" where
  "k_weekday_offsets = [-1, 0, 3, 2, 5, 0, 3, 5, 1, 4, 6, 2, 4]"

definition get_weekday :: "fields \<Rightarrow> weekday option" where
  "get_weekday cs =
     (let wd = 2400 + (year cs smod 400) - of_bool (month cs < 3);
          wd = wd + (wd sdiv 4 - wd sdiv 100 + wd sdiv 400)
      in case table_at k_weekday_offsets (month cs) of
           None \<Rightarrow> None
         | Some off \<Rightarrow>
             (let wd = wd + (off + day cs)
              in table_at k_weekday_by_mon_off (wd smod 7 + 6)))"







section \<open>The operations on 64-bit integers\<close>

text \<open>
  The functions above compute on unbounded integers. This section repeats the stepping
  and the differences with the width of \<^verbatim>\<open>year_t\<close> and \<^verbatim>\<open>diff_t\<close>: every operation of the
  source that can leave the signed 64-bit range is wrapped modulo 2^64 by \<open>wrap64\<close>, the
  result of two's-complement hardware (C++ leaves signed overflow undefined). Each function
  carries the name of its unbounded twin with the suffix 64, and differs from it by the
  wraps only.

  In the cascade the operations wrapped are the ones on the year: the sum of line 230 in
  \<open>n_day\<close>, the sum and the difference of lines 238 and 243 in \<open>n_mon\<close>, and the sums of
  lines 352 and 355 in \<open>step\<close>. The other operations divide a 64-bit value by 12, 24, 60 or
  146097, or add two such quotients and remainders: they stay within the range. In the
  differences the operations wrapped are the ones of \<open>scale_add\<close> (line 365), the year
  difference (line 451) and, in \<open>day_difference\<close>, the ones on the years and on the cycle
  difference (lines 429 to 443); \<open>ymd_ord\<close> is called there on years between -399 and 399
  and stays below 2^20.
\<close>

definition in_int64 :: "int \<Rightarrow> bool" where
  "in_int64 x \<longleftrightarrow> int64_min \<le> x \<and> x \<le> int64_max"

definition wrap64 :: "int \<Rightarrow> int" where
  "wrap64 x = (x + 2 ^ 63) mod 2 ^ 64 - 2 ^ 63"

definition n_day64 :: "int \<Rightarrow> int \<Rightarrow> int \<Rightarrow> int \<Rightarrow> int \<Rightarrow> int \<Rightarrow> int \<Rightarrow> fields option" where
  "n_day64 y m d cd hh mm ss =
     (let oey = y smod 400 in
      map_option
        (\<lambda>((ey, m, d), _). mk_fields (wrap64 (y + (ey - oey))) m (narrow8 d) hh mm ss)
        (n_day_run y m d cd))"

definition n_mon64 :: "int \<Rightarrow> int \<Rightarrow> int \<Rightarrow> int \<Rightarrow> int \<Rightarrow> int \<Rightarrow> int \<Rightarrow> fields option" where
  "n_mon64 y m d cd hh mm ss =
     (let (y, m) =
        (if m \<noteq> 12 then
           (let y = wrap64 (y + m sdiv 12);
                m = m smod 12
            in if m \<le> 0 then (wrap64 (y - 1), m + 12) else (y, m))
         else (y, m))
      in n_day64 y (narrow8 m) d cd hh mm ss)"

definition n_hour64 :: "int \<Rightarrow> int \<Rightarrow> int \<Rightarrow> int \<Rightarrow> int \<Rightarrow> int \<Rightarrow> int \<Rightarrow> fields option" where
  "n_hour64 y m d cd hh mm ss =
     (let cd = cd + hh sdiv 24;
          hh = hh smod 24;
          (cd, hh) = (if hh < 0 then (cd - 1, hh + 24) else (cd, hh))
      in n_mon64 y m d cd (narrow8 hh) mm ss)"

definition n_min64 :: "int \<Rightarrow> int \<Rightarrow> int \<Rightarrow> int \<Rightarrow> int \<Rightarrow> int \<Rightarrow> int \<Rightarrow> fields option" where
  "n_min64 y m d hh ch mm ss =
     (let ch = ch + mm sdiv 60;
          mm = mm smod 60;
          (ch, mm) = (if mm < 0 then (ch - 1, mm + 60) else (ch, mm))
      in n_hour64 y m d (hh sdiv 24 + ch sdiv 24) (hh smod 24 + ch smod 24) (narrow8 mm) ss)"

definition n_sec64 :: "int \<Rightarrow> int \<Rightarrow> int \<Rightarrow> int \<Rightarrow> int \<Rightarrow> int \<Rightarrow> fields option" where
  "n_sec64 y m d hh mm ss =
     (if 0 \<le> ss \<and> ss < 60 then
        (let nss = narrow8 ss in
         if 0 \<le> mm \<and> mm < 60 then
           (let nmm = narrow8 mm in
            if 0 \<le> hh \<and> hh < 24 then
              (let nhh = narrow8 hh in
               if 1 \<le> d \<and> d \<le> 28 \<and> 1 \<le> m \<and> m \<le> 12 then
                 (let nd = narrow8 d; nm = narrow8 m
                  in Some (mk_fields y nm nd nhh nmm nss))
               else n_mon64 y m d 0 nhh nmm nss)
            else n_hour64 y m d (hh sdiv 24) (hh smod 24) nmm nss)
         else n_min64 y m d hh (mm sdiv 60) (mm smod 60) nss)
      else
        (let cm = ss sdiv 60;
             ss = ss smod 60;
             (cm, ss) = (if ss < 0 then (cm - 1, ss + 60) else (cm, ss))
         in n_min64 y m d hh (mm sdiv 60 + cm sdiv 60) (mm smod 60 + cm smod 60) (narrow8 ss)))"

fun step64 :: "tag \<Rightarrow> fields \<Rightarrow> int \<Rightarrow> fields option" where
  "step64 second_tag f n =
     n_sec64 (year f) (month f) (day f) (hour f) (minute f + n sdiv 60) (second f + n smod 60)"
| "step64 minute_tag f n =
     n_min64 (year f) (month f) (day f) (hour f + n sdiv 60) 0 (minute f + n smod 60) (second f)"
| "step64 hour_tag f n =
     n_hour64 (year f) (month f) (day f + n sdiv 24) 0 (hour f + n smod 24) (minute f) (second f)"
| "step64 day_tag f n =
     n_day64 (year f) (month f) (day f) n (hour f) (minute f) (second f)"
| "step64 month_tag f n =
     n_mon64 (wrap64 (year f + n sdiv 12)) (month f + n smod 12) (day f) 0
       (hour f) (minute f) (second f)"
| "step64 year_tag f n =
     Some (mk_fields (wrap64 (year f + n)) (month f) (day f) (hour f) (minute f) (second f))"

definition civil_plus64 :: "tag \<Rightarrow> fields \<Rightarrow> int \<Rightarrow> fields option" where
  "civil_plus64 T a n = map_option (civil_time T) (step64 T a n)"


definition scale_add64 :: "int \<Rightarrow> int \<Rightarrow> int \<Rightarrow> int" where
  "scale_add64 v f a =
     (if v < 0 then wrap64 (wrap64 (wrap64 (wrap64 (v + 1) * f) + a) - f)
      else wrap64 (wrap64 (wrap64 (wrap64 (v - 1) * f) + a) + f))"

definition day_difference64 :: "int \<Rightarrow> int \<Rightarrow> int \<Rightarrow> int \<Rightarrow> int \<Rightarrow> int \<Rightarrow> int" where
  "day_difference64 y1 m1 d1 y2 m2 d2 =
     (let a_c4_off = y1 smod 400;
          b_c4_off = y2 smod 400;
          c4_diff = wrap64 (wrap64 (y1 - a_c4_off) - wrap64 (y2 - b_c4_off));
          delta = ymd_ord a_c4_off m1 d1 - ymd_ord b_c4_off m2 d2;
          (delta, c4_diff) =
            (if c4_diff > 0 \<and> delta < 0 then (delta + 2 * 146097, wrap64 (c4_diff - 2 * 400))
             else if c4_diff < 0 \<and> delta > 0 then
               (delta - 2 * 146097, wrap64 (c4_diff + 2 * 400))
             else (delta, c4_diff))
      in wrap64 (wrap64 (c4_diff sdiv 400 * 146097) + delta))"

function difference64 :: "tag \<Rightarrow> fields \<Rightarrow> fields \<Rightarrow> int" where
  "difference64 year_tag f1 f2 = wrap64 (year f1 - year f2)"
| "difference64 month_tag f1 f2 =
     scale_add64 (difference64 year_tag f1 f2) 12 (month f1 - month f2)"
| "difference64 day_tag f1 f2 =
     day_difference64 (year f1) (month f1) (day f1) (year f2) (month f2) (day f2)"
| "difference64 hour_tag f1 f2 =
     scale_add64 (difference64 day_tag f1 f2) 24 (hour f1 - hour f2)"
| "difference64 minute_tag f1 f2 =
     scale_add64 (difference64 hour_tag f1 f2) 60 (minute f1 - minute f2)"
| "difference64 second_tag f1 f2 =
     scale_add64 (difference64 minute_tag f1 f2) 60 (second f1 - second f2)"
  by pat_completeness auto
termination
  by (relation "measure (\<lambda>(T, f1, f2). tag_rank T)") auto



section \<open>Notions the properties are stated with\<close>

text \<open>
  None of the definitions of this section is code of the source: they are the vocabulary
  of the statements and of the proofs.
\<close>

text \<open>
  Canonical fields: month in [1, 12], day in [1, days-in-month], hour in [0, 23], minute
  and second in [0, 59].
\<close>

definition normalized :: "fields \<Rightarrow> bool" where
  "normalized f \<longleftrightarrow>
     1 \<le> month f \<and> month f \<le> 12 \<and> 1 \<le> day f \<and>
     (case days_per_month (year f) (month f) of None \<Rightarrow> False | Some n \<Rightarrow> day f \<le> n) \<and>
     0 \<le> hour f \<and> hour f \<le> 23 \<and> 0 \<le> minute f \<and> minute f \<le> 59 \<and>
     0 \<le> second f \<and> second f \<le> 59"

text \<open>
  A value of \<^verbatim>\<open>civil_time<T>\<close>: every constructor of the class stores canonical fields
  that alignment to \<open>T\<close> leaves unchanged.
\<close>

definition civil_value :: "tag \<Rightarrow> fields \<Rightarrow> bool" where
  "civil_value T v \<longleftrightarrow> normalized v \<and> align T v = v"

text \<open>
  The place of canonical fields on the time line: the day number of the date (days
  since 1970-01-01, by \<open>ymd_ord\<close>) and the number of seconds since 1970-01-01 00:00:00.
\<close>

definition date_ord :: "fields \<Rightarrow> int" where
  "date_ord f = ymd_ord (year f) (month f) (day f)"

definition secs :: "fields \<Rightarrow> int" where
  "secs f = ((date_ord f * 24 + hour f) * 60 + minute f) * 60 + second f"

text \<open>
  The same for raw fields: months outside [1, 12] carry into the year, every other field
  counts linearly.
\<close>

definition raw_ord :: "int \<Rightarrow> int \<Rightarrow> int \<Rightarrow> int" where
  "raw_ord y m d = ymd_ord (y + (m - 1) div 12) ((m - 1) mod 12 + 1) d"

definition raw_secs :: "int \<Rightarrow> int \<Rightarrow> int \<Rightarrow> int \<Rightarrow> int \<Rightarrow> int \<Rightarrow> int" where
  "raw_secs y m d hh mm ss = ((raw_ord y m d * 24 + hh) * 60 + mm) * 60 + ss"

text \<open>The months of canonical fields, counted from year 0.\<close>

definition month_index :: "fields \<Rightarrow> int" where
  "month_index f = 12 * year f + month f"

text \<open>
  The number of whole units of \<open>T\<close> between 1970-01-01 00:00:00 and the fields (for months
  and years, between year 0 and the fields).
\<close>

fun unit_index :: "tag \<Rightarrow> fields \<Rightarrow> int" where
  "unit_index second_tag v = secs v"
| "unit_index minute_tag v = (date_ord v * 24 + hour v) * 60 + minute v"
| "unit_index hour_tag v = date_ord v * 24 + hour v"
| "unit_index day_tag v = date_ord v"
| "unit_index month_tag v = month_index v"
| "unit_index year_tag v = year v"

text \<open>The position of a weekday in the week that starts on Monday.\<close>

fun weekday_number :: "weekday \<Rightarrow> int" where
  "weekday_number monday = 0"
| "weekday_number tuesday = 1"
| "weekday_number wednesday = 2"
| "weekday_number thursday = 3"
| "weekday_number friday = 4"
| "weekday_number saturday = 5"
| "weekday_number sunday = 6"

text \<open>
  The rest serves the proofs. \<open>yd E\<close> is the number of days in the years 1 to \<open>E\<close>
  (leap days of the years divisible by 4, but for the centuries not divisible by 400);
  \<open>year_parts\<close> splits a year into its 400-year cycle, century, 4-year block and year.
\<close>

definition yd :: "int \<Rightarrow> int" where
  "yd E = 365 * E + E div 4 - E div 100 + E div 400"

definition year_parts :: "int \<Rightarrow> int \<Rightarrow> int \<Rightarrow> int \<Rightarrow> int \<Rightarrow> bool" where
  "year_parts E q c t u \<longleftrightarrow>
     E = 400 * q + 100 * c + 4 * t + u \<and> 0 \<le> c \<and> c < 4 \<and> 0 \<le> t \<and> t < 25 \<and> 0 \<le> u \<and> u < 4"

text \<open>
  \<open>ymd_ord\<close> counts in years that start on March 1: the year a month belongs to, and
  the days of that year before the month.
\<close>

definition shifted_year :: "int \<Rightarrow> int \<Rightarrow> int" where
  "shifted_year y m = y - of_bool (m \<le> 2)"

definition doy_of_month :: "int \<Rightarrow> int" where
  "doy_of_month m = (153 * (m + (if m > 2 then - 3 else 9)) + 2) sdiv 5"

text \<open>The month after a month, and the day number of the first day of a month.\<close>

definition next_month :: "int \<times> int \<Rightarrow> int \<times> int" where
  "next_month p = (case p of (y, m) \<Rightarrow> if m + 1 > 12 then (y + 1, 1) else (y, m + 1))"

definition ord1 :: "int \<times> int \<Rightarrow> int" where
  "ord1 p = (case p of (y, m) \<Rightarrow> ymd_ord y m 1)"

text \<open>
  The fields with the year wrapped to 64 bits: what the cascade on 64-bit integers
  returns where the cascade on unbounded integers returns \<open>f\<close>.
\<close>

definition wrap_year :: "fields \<Rightarrow> fields" where
  "wrap_year f =
     mk_fields (wrap64 (year f)) (month f) (day f) (hour f) (minute f) (second f)"

text \<open>
  The year sums of \<open>n_mon\<close> (lines 238 and 243) stay within 64 bits for the year \<open>y\<close> and
  the month count \<open>m\<close>.
\<close>

definition mon_fits :: "int \<Rightarrow> int \<Rightarrow> bool" where
  "mon_fits y m \<longleftrightarrow>
     (m \<noteq> 12 \<longrightarrow> in_int64 (y + m sdiv 12) \<and> (m smod 12 \<le> 0 \<longrightarrow> in_int64 (y + m sdiv 12 - 1)))"

section \<open>Truncating division against flooring division\<close>

lemma sdiv_floor:
  "0 < b \<Longrightarrow> a sdiv b = (if a < 0 \<and> a mod b \<noteq> 0 then a div b + 1 else a div b)" for a b :: int
  by (auto simp: signed_divide_int_eq_divide_int sgn_if mod_eq_0_iff_dvd)

lemma smod_floor:
  "0 < b \<Longrightarrow> a smod b = (if a < 0 \<and> a mod b \<noteq> 0 then a mod b - b else a mod b)" for a b :: int
  by (auto simp: signed_modulo_int_eq_modulo_int sgn_if mod_eq_0_iff_dvd)

lemma mod_range: "0 < b \<Longrightarrow> \<not> a mod b < 0 \<and> \<not> b \<le> a mod b" for a b :: int
  by (simp add: not_less not_le)

lemma floor_fix:
  fixes a b :: int
  assumes "0 < b"
  shows "(if a smod b < 0 then (a sdiv b - 1, a smod b + b) else (a sdiv b, a smod b)) =
         (a div b, a mod b)"
  using assms mod_range [of b a] by (auto simp: sdiv_floor smod_floor)

lemma smod_eq_0_iff: "0 < b \<Longrightarrow> a smod b = 0 \<longleftrightarrow> a mod b = 0" for a b :: int
  using mod_range [of b a] by (auto simp: smod_floor)

lemma sdiv_nonneg: "0 \<le> a \<Longrightarrow> 0 < b \<Longrightarrow> a sdiv b = a div b" for a b :: int
  by (simp add: sdiv_floor)

lemma smod_nonneg: "0 \<le> a \<Longrightarrow> 0 < b \<Longrightarrow> a smod b = a mod b" for a b :: int
  by (simp add: smod_floor)

lemma sdiv_smod_id: "b * (a sdiv b) + a smod b = a" for a b :: int
  by (fact mult_sdiv_smod_eq)

lemma sdiv_mult_cancel: "0 < b \<Longrightarrow> (b * k) sdiv b = k" for b k :: int
  by (simp add: sdiv_floor)

lemma narrow8_id: "- 128 \<le> x \<Longrightarrow> x \<le> 127 \<Longrightarrow> narrow8 x = x"
  unfolding narrow8_def by (simp add: mod_pos_pos_trivial)

lemma divmod_unique:
  fixes a b q r :: int
  assumes "a = b * q + r" "0 \<le> r" "r < b"
  shows "a div b = q" "a mod b = r"
  using assms by (simp_all add: int_div_pos_eq int_mod_pos_eq)

lemma era_floor: "(if e \<ge> 0 then e else e - 399) sdiv 400 = e div 400" for e :: int
proof (cases "e \<ge> 0")
  case True
  then show ?thesis by (simp add: sdiv_nonneg)
next
  case False
  define q where "q = e div 400"
  define r where "r = e mod 400"
  have e: "e = 400 * q + r" and r: "0 \<le> r" "r < 400"
    by (simp_all add: q_def r_def)
  have neg: "e - 399 < 0" using False by simp
  show ?thesis
  proof (cases "r = 399")
    case True
    have "e - 399 = 400 * q + 0" using e True by simp
    then have "(e - 399) div 400 = q" "(e - 399) mod 400 = 0"
      by (rule divmod_unique; simp)+
    then show ?thesis using False neg by (simp add: sdiv_floor q_def)
  next
    case nz: False
    have "e - 399 = 400 * (q - 1) + (r + 1)" using e by simp
    moreover have "0 \<le> r + 1" "r + 1 < 400" using r nz by simp_all
    ultimately have dm: "(e - 399) div 400 = q - 1" "(e - 399) mod 400 = r + 1"
      by (rule divmod_unique)+
    have "r + 1 \<noteq> 0" using r by simp
    then show ?thesis using False neg dm by (simp add: sdiv_floor q_def)
  qed
qed

section \<open>Days before a year\<close>

lemma year_parts_ex: "\<exists>q c t u. year_parts E q c t u"
proof -
  define q where "q = E div 400"
  define r where "r = E mod 400"
  define c where "c = r div 100"
  define s where "s = r mod 100"
  define t where "t = s div 4"
  define u where "u = s mod 4"
  have E: "E = 400 * q + r" and r: "0 \<le> r" "r < 400" by (simp_all add: q_def r_def)
  have R: "r = 100 * c + s" and s: "0 \<le> s" "s < 100" by (simp_all add: c_def s_def)
  have S: "s = 4 * t + u" and u: "0 \<le> u" "u < 4" by (simp_all add: t_def u_def)
  have "0 \<le> c" "c < 4" using r R s by linarith+
  moreover have "0 \<le> t" "t < 25" using s S u by linarith+
  ultimately have "year_parts E q c t u"
    unfolding year_parts_def using E R S u by simp
  then show ?thesis by blast
qed

lemma year_parts_div:
  assumes "year_parts E q c t u"
  shows "E div 4 = 100 * q + 25 * c + t" "E mod 4 = u"
    "E div 100 = 4 * q + c" "E mod 100 = 4 * t + u"
    "E div 400 = q" "E mod 400 = 100 * c + 4 * t + u"
proof -
  from assms have E: "E = 400 * q + 100 * c + 4 * t + u"
    and r: "0 \<le> c" "c < 4" "0 \<le> t" "t < 25" "0 \<le> u" "u < 4"
    by (simp_all add: year_parts_def)
  have a: "E = 4 * (100 * q + 25 * c + t) + u" using E by simp
  show "E div 4 = 100 * q + 25 * c + t" "E mod 4 = u"
    using a r(5,6) by (rule divmod_unique)+
  have b: "E = 100 * (4 * q + c) + (4 * t + u)" using E by simp
  have b1: "0 \<le> 4 * t + u" "4 * t + u < 100" using r by linarith+
  show "E div 100 = 4 * q + c" "E mod 100 = 4 * t + u"
    using b b1 by (rule divmod_unique)+
  have c: "E = 400 * q + (100 * c + 4 * t + u)" using E by simp
  have c1: "0 \<le> 100 * c + 4 * t + u" "100 * c + 4 * t + u < 400" using r by linarith+
  show "E div 400 = q" "E mod 400 = 100 * c + 4 * t + u"
    using c c1 by (rule divmod_unique)+
qed

lemma yd_parts: "year_parts E q c t u \<Longrightarrow> yd E = 365 * E + 97 * q + 24 * c + t"
  unfolding yd_def by (simp add: year_parts_div)

lemma is_leap_year_parts:
  assumes "year_parts E q c t u"
  shows "is_leap_year E \<longleftrightarrow> u = 0 \<and> (t \<noteq> 0 \<or> c = 0)"
proof -
  from assms have r: "0 \<le> c" "c < 4" "0 \<le> t" "t < 25" "0 \<le> u" "u < 4"
    by (simp_all add: year_parts_def)
  have "is_leap_year E \<longleftrightarrow> u = 0 \<and> (4 * t + u \<noteq> 0 \<or> 100 * c + 4 * t + u = 0)"
    unfolding is_leap_year_def by (simp add: smod_eq_0_iff year_parts_div [OF assms])
  also have "\<dots> \<longleftrightarrow> u = 0 \<and> (t \<noteq> 0 \<or> c = 0)"
    using r by auto
  finally show ?thesis .
qed

text \<open>The year after, and the years 4, 100 and 400 later, in parts.\<close>

lemma year_parts_succ:
  assumes "year_parts E q c t u"
  shows "year_parts (E + 1)
           (if u = 3 \<and> t = 24 \<and> c = 3 then q + 1 else q)
           (if u = 3 \<and> t = 24 then (if c = 3 then 0 else c + 1) else c)
           (if u = 3 then (if t = 24 then 0 else t + 1) else t)
           (if u = 3 then 0 else u + 1)"
  using assms unfolding year_parts_def by auto

lemma year_parts_add_4:
  assumes "year_parts E q c t u"
  shows "year_parts (E + 4)
           (if t = 24 \<and> c = 3 then q + 1 else q)
           (if t = 24 then (if c = 3 then 0 else c + 1) else c)
           (if t = 24 then 0 else t + 1) u"
  using assms unfolding year_parts_def by auto

lemma year_parts_add_100:
  assumes "year_parts E q c t u"
  shows "year_parts (E + 100) (if c = 3 then q + 1 else q) (if c = 3 then 0 else c + 1) t u"
  using assms unfolding year_parts_def by auto

lemma year_parts_add_400:
  assumes "year_parts E q c t u"
  shows "year_parts (E + 400 * k) (q + k) c t u"
  using assms unfolding year_parts_def by auto

lemma yd_add_400: "yd (E + 400 * k) = yd E + 146097 * k"
proof -
  obtain q c t u where p: "year_parts E q c t u" using year_parts_ex by blast
  show ?thesis
    by (simp add: yd_parts [OF p] yd_parts [OF year_parts_add_400 [OF p]])
qed

lemma yd_succ: "yd (E + 1) = yd E + (if is_leap_year (E + 1) then 366 else 365)"
proof -
  obtain q c t u where p: "year_parts E q c t u" using year_parts_ex by blast
  then have r: "0 \<le> c" "c < 4" "0 \<le> t" "t < 25" "0 \<le> u" "u < 4"
    by (simp_all add: year_parts_def)
  show ?thesis
    unfolding yd_parts [OF p] yd_parts [OF year_parts_succ [OF p]]
      is_leap_year_parts [OF year_parts_succ [OF p]]
    using r by auto
qed

lemma index_mod_parts:
  assumes "year_parts E q c t u"
  shows "(E + 1) mod 400 = (if c = 3 \<and> t = 24 \<and> u = 3 then 0 else 100 * c + 4 * t + u + 1)"
  using year_parts_div(6) [OF year_parts_succ [OF assms]] assms
  unfolding year_parts_def by (auto split: if_splits)

lemma days_per_century_parts:
  assumes "year_parts E q c t u"
  shows "days_per_century ((E + 1) mod 400) = 36524 + of_bool (c = 3)"
proof -
  from assms have r: "0 \<le> c" "c < 4" "0 \<le> t" "t < 25" "0 \<le> u" "u < 4"
    by (simp_all add: year_parts_def)
  then have "c = 0 \<or> c = 1 \<or> c = 2 \<or> c = 3" by linarith
  then show ?thesis
    unfolding days_per_century_def index_mod_parts [OF assms] using r by auto
qed

lemma yd_add_100: "yd (E + 100) = yd E + days_per_century ((E + 1) mod 400)"
proof -
  obtain q c t u where p: "year_parts E q c t u" using year_parts_ex by blast
  show ?thesis
    unfolding yd_parts [OF p] yd_parts [OF year_parts_add_100 [OF p]]
      days_per_century_parts [OF p]
    by auto
qed

lemma days_per_4years_parts:
  assumes "year_parts E q c t u"
  shows "days_per_4years ((E + 1) mod 400) = 1460 + of_bool (c = 3 \<or> t < 24)"
proof -
  from assms have r: "0 \<le> c" "c < 4" "0 \<le> t" "t < 25" "0 \<le> u" "u < 4"
    by (simp_all add: year_parts_def)
  have c: "c = 0 \<or> c = 1 \<or> c = 2 \<or> c = 3" using r by linarith
  show ?thesis
  proof (cases "c = 3 \<and> t = 24 \<and> u = 3")
    case True
    then show ?thesis
      unfolding days_per_4years_def index_mod_parts [OF assms] by simp
  next
    case False
    define s where "s = 4 * t + u"
    have s: "0 \<le> s" "s < 100" using r by (simp_all add: s_def)
    have md: "(100 * c + s) mod 100 = s"
      using s by (intro divmod_unique(2) [of _ _ c]) simp_all
    have nn: "0 \<le> 100 * c + s" using r s by linarith
    have idx: "(E + 1) mod 400 = 100 * c + s + 1"
      using False by (simp add: index_mod_parts [OF assms] s_def)
    have "((E + 1) mod 400 - 1) smod 100 = (100 * c + s) smod 100"
      by (simp add: idx)
    also have "\<dots> = (100 * c + s) mod 100"
      using nn by (rule smod_nonneg) simp
    also have "\<dots> = s" by (rule md)
    finally have m: "((E + 1) mod 400 - 1) smod 100 = s" .
    have t: "s < 96 \<longleftrightarrow> t < 24" using r unfolding s_def by linarith
    have z: "(E + 1) mod 400 \<noteq> 0" "(E + 1) mod 400 > 300 \<longleftrightarrow> c = 3"
      using c s by (auto simp: idx)
    define yi where "yi = (E + 1) mod 400"
    have "(yi - 1) smod 100 < 96 \<longleftrightarrow> t < 24" "yi \<noteq> 0" "yi > 300 \<longleftrightarrow> c = 3"
      using m t z by (simp_all add: yi_def)
    then have "days_per_4years yi = 1460 + of_bool (c = 3 \<or> t < 24)"
      by (simp add: days_per_4years_def)
    then show ?thesis by (simp add: yi_def)
  qed
qed

lemma yd_add_4: "yd (E + 4) = yd E + days_per_4years ((E + 1) mod 400)"
proof -
  obtain q c t u where p: "year_parts E q c t u" using year_parts_ex by blast
  then have r: "0 \<le> c" "c < 4" "0 \<le> t" "t < 25" "0 \<le> u" "u < 4"
    by (simp_all add: year_parts_def)
  show ?thesis
    unfolding yd_parts [OF p] yd_parts [OF year_parts_add_4 [OF p]]
      days_per_4years_parts [OF p]
    using r by auto
qed

section \<open>The day number of a date\<close>

lemma ymd_ord_yd:
  "ymd_ord y m d = yd (shifted_year y m) + doy_of_month m + d - 1 - 719468"
proof -
  define e where "e = shifted_year y m"
  have e: "(if m \<le> 2 then y - 1 else y) = e" by (simp add: e_def shifted_year_def)
  have yoe: "e - e div 400 * 400 = e mod 400" by (simp add: minus_div_mult_eq_mod)
  obtain q c t u where p: "year_parts e q c t u" using year_parts_ex by blast
  then have r: "0 \<le> c" "c < 4" "0 \<le> t" "t < 25" "0 \<le> u" "u < 4"
    and E: "e = 400 * q + 100 * c + 4 * t + u"
    by (simp_all add: year_parts_def)
  define s where "s = 100 * c + 4 * t + u"
  have s0: "0 \<le> s" using r by (simp add: s_def)
  have "year_parts s 0 c t u" using r by (simp add: year_parts_def s_def)
  then have sd: "s div 4 = 25 * c + t" "s div 100 = c"
    using year_parts_div [of s 0 c t u] by simp_all
  have es: "e = 400 * q + s" using E by (simp add: s_def)
  have q: "e div 400 = q" by (rule year_parts_div(5) [OF p])
  have ss: "s sdiv 4 = 25 * c + t" "s sdiv 100 = c"
    using s0 sd by (simp_all add: sdiv_nonneg)
  have "e div 400 * 146097 + (s * 365 + s sdiv 4 - s sdiv 100) = yd e"
    unfolding yd_parts [OF p] q ss by (simp add: es)
  then show ?thesis
    unfolding ymd_ord_def Let_def e era_floor yoe doy_of_month_def [symmetric]
      year_parts_div(6) [OF p] s_def [symmetric] e_def [symmetric]
    by simp
qed

lemma shifted_year_add: "shifted_year (y + k) m = shifted_year y m + k"
  by (simp add: shifted_year_def)

lemma ymd_ord_day: "ymd_ord y m (d + k) = ymd_ord y m d + k"
  by (simp add: ymd_ord_yd)

lemma ymd_ord_day1: "ymd_ord y m d = ymd_ord y m 1 + (d - 1)"
  by (simp add: ymd_ord_yd)

lemma ymd_ord_add_400: "ymd_ord (y + 400 * k) m d = ymd_ord y m d + 146097 * k"
  by (simp add: ymd_ord_yd shifted_year_add yd_add_400)

lemma year_index_eq: "year_index y m = (shifted_year y m + 1) mod 400"
proof -
  have "y + of_bool (m > 2) = shifted_year y m + 1"
    by (simp add: shifted_year_def)
  moreover have "(let yi = a smod 400 in if yi < 0 then yi + 400 else yi) = a mod 400" for a :: int
    using floor_fix [of 400 a] by (simp add: Let_def split: if_splits)
  ultimately show ?thesis by (simp add: year_index_def)
qed

lemma year_index_range: "0 \<le> year_index y m" "year_index y m < 400"
  by (simp_all add: year_index_eq)

lemma days_per_year_eq:
  "days_per_year y m = (if is_leap_year (shifted_year y m + 1) then 366 else 365)"
proof -
  have "y + of_bool (m > 2) = shifted_year y m + 1"
    by (simp add: shifted_year_def)
  then show ?thesis by (simp add: days_per_year_def)
qed

lemma ymd_ord_add_year: "ymd_ord (y + 1) m d = ymd_ord y m d + days_per_year y m"
  by (simp add: ymd_ord_yd shifted_year_add yd_succ days_per_year_eq)

lemma ymd_ord_add_4years: "ymd_ord (y + 4) m d = ymd_ord y m d + days_per_4years (year_index y m)"
  by (simp add: ymd_ord_yd shifted_year_add yd_add_4 year_index_eq)

lemma ymd_ord_add_century:
  "ymd_ord (y + 100) m d = ymd_ord y m d + days_per_century (year_index y m)"
  by (simp add: ymd_ord_yd shifted_year_add yd_add_100 year_index_eq)

lemma year_index_step:
  assumes "0 < k" "k < 400"
  shows "(if year_index y m + k \<ge> 400 then year_index y m + k - 400 else year_index y m + k) =
         year_index (y + k) m"
proof -
  define a where "a = shifted_year y m + 1"
  define q where "q = a div 400"
  define r where "r = a mod 400"
  have a: "a = 400 * q + r" and r: "0 \<le> r" "r < 400" by (simp_all add: q_def r_def)
  have "(a + k) mod 400 = (if r + k \<ge> 400 then r + k - 400 else r + k)"
  proof (cases "r + k \<ge> 400")
    case True
    have "a + k = 400 * (q + 1) + (r + k - 400)" using a by simp
    moreover have "0 \<le> r + k - 400" "r + k - 400 < 400" using True r assms by linarith+
    ultimately have "(a + k) mod 400 = r + k - 400" by (rule divmod_unique(2))
    then show ?thesis using True by simp
  next
    case False
    have "a + k = 400 * q + (r + k)" using a by simp
    moreover have "0 \<le> r + k" "r + k < 400" using False r assms by linarith+
    ultimately have "(a + k) mod 400 = r + k" by (rule divmod_unique(2))
    then show ?thesis using False by simp
  qed
  moreover have "year_index y m = r"
    by (simp add: year_index_eq a_def r_def)
  moreover have "year_index (y + k) m = (a + k) mod 400"
    unfolding year_index_eq shifted_year_add a_def by (simp add: ac_simps)
  ultimately show ?thesis by simp
qed

section \<open>Months\<close>

lemma month_cases:
  assumes "1 \<le> m" "m \<le> 12"
  shows "m = 1 \<or> m = 2 \<or> m = 3 \<or> m = 4 \<or> m = 5 \<or> m = 6 \<or> m = 7 \<or> m = 8 \<or> m = 9 \<or>
    m = 10 \<or> m = 11 \<or> m = (12 :: int)"
  using assms by presburger

lemma doy_of_month_values:
  "doy_of_month 1 = 306" "doy_of_month 2 = 337" "doy_of_month 3 = 0" "doy_of_month 4 = 31"
  "doy_of_month 5 = 61" "doy_of_month 6 = 92" "doy_of_month 7 = 122" "doy_of_month 8 = 153"
  "doy_of_month 9 = 184" "doy_of_month 10 = 214" "doy_of_month 11 = 245" "doy_of_month 12 = 275"
  by (simp_all add: doy_of_month_def sdiv_nonneg)

lemma days_per_month_values:
  "days_per_month y 1 = Some 31" "days_per_month y 2 = Some (28 + of_bool (is_leap_year y))"
  "days_per_month y 3 = Some 31" "days_per_month y 4 = Some 30" "days_per_month y 5 = Some 31"
  "days_per_month y 6 = Some 30" "days_per_month y 7 = Some 31" "days_per_month y 8 = Some 31"
  "days_per_month y 9 = Some 30" "days_per_month y 10 = Some 31" "days_per_month y 11 = Some 30"
  "days_per_month y 12 = Some 31"
  by (simp_all add: days_per_month_def table_at_def k_days_per_month_def)

lemma days_per_month_ex:
  assumes "1 \<le> m" "m \<le> 12"
  shows "\<exists>n. days_per_month y m = Some n \<and> 28 \<le> n \<and> n \<le> 31"
  using month_cases [OF assms] by (auto simp: days_per_month_values)

lemma ord1_next_month:
  assumes "1 \<le> m" "m \<le> 12" "days_per_month y m = Some n"
  shows "ord1 (next_month (y, m)) = ord1 (y, m) + n"
proof -
  have feb: "yd y = yd (y - 1) + (if is_leap_year y then 366 else 365)"
    using yd_succ [of "y - 1"] by simp
  from month_cases [OF assms(1,2)] assms(3) show ?thesis
    by (auto simp: days_per_month_values doy_of_month_values ord1_def next_month_def
        ymd_ord_yd shifted_year_def feb)
qed

lemma next_month_range:
  assumes "1 \<le> m" "m \<le> 12"
  shows "1 \<le> snd (next_month (y, m))" "snd (next_month (y, m)) \<le> 12"
  using assms by (auto simp: next_month_def)

lemma next_month_12:
  assumes "1 \<le> m" "m \<le> 12"
  shows "(next_month ^^ 12) (y, m) = (y + 1, m)"
  using month_cases [OF assms] by (auto simp: next_month_def eval_nat_numeral)

section \<open>The loops of \<open>n_day\<close>, specified\<close>

lemma century_loop_spec:
  assumes "0 < d" "d \<le> ymd_ord (ey + 100 * (int j + 1)) m 1 - ymd_ord ey m 1"
  shows "\<exists>d' ey' k'. century_loop d ey (year_index ey m) k = (d', ey', year_index ey' m, k') \<and>
           0 < d' \<and> d' \<le> days_per_century (year_index ey' m) \<and>
           ymd_ord ey' m d' = ymd_ord ey m d \<and> k' \<le> k + j"
  using assms
proof (induction j arbitrary: d ey k)
  case 0
  then have "d \<le> days_per_century (year_index ey m)"
    by (simp add: ymd_ord_add_century)
  with 0 show ?case
    by (subst century_loop.simps) simp
next
  case (Suc j)
  define n where "n = days_per_century (year_index ey m)"
  show ?case
  proof (cases "d \<le> n")
    case True
    with Suc.prems show ?thesis
      by (subst century_loop.simps) (simp add: n_def)
  next
    case False
    have step: "century_loop d ey (year_index ey m) k =
                century_loop (d - n) (ey + 100) (year_index (ey + 100) m) (Suc k)"
      using False
      by (subst century_loop.simps) (simp add: n_def [symmetric] year_index_step [symmetric])
    have c: "ymd_ord (ey + 100) m 1 = ymd_ord ey m 1 + n"
      by (simp add: ymd_ord_add_century n_def)
    have e: "ey + 100 * (int (Suc j) + 1) = ey + 100 + 100 * (int j + 1)" by simp
    have "0 < d - n" using False by simp
    moreover have "d - n \<le> ymd_ord (ey + 100 + 100 * (int j + 1)) m 1 - ymd_ord (ey + 100) m 1"
      using Suc.prems(2) unfolding e c by linarith
    ultimately obtain d' ey' k' where r:
      "century_loop (d - n) (ey + 100) (year_index (ey + 100) m) (Suc k) =
         (d', ey', year_index ey' m, k')"
      "0 < d'" "d' \<le> days_per_century (year_index ey' m)"
      "ymd_ord ey' m d' = ymd_ord (ey + 100) m (d - n)" "k' \<le> Suc k + j"
      using Suc.IH [of "d - n" "ey + 100" "Suc k"] by blast
    have "ymd_ord (ey + 100) m (d - n) = ymd_ord ey m d"
      using c by (simp add: ymd_ord_day1 [of _ _ "d - n"] ymd_ord_day1 [of _ _ d])
    with r step show ?thesis by simp
  qed
qed

lemma years4_loop_spec:
  assumes "0 < d" "d \<le> ymd_ord (ey + 4 * (int j + 1)) m 1 - ymd_ord ey m 1"
  shows "\<exists>d' ey' k'. years4_loop d ey (year_index ey m) k = (d', ey', year_index ey' m, k') \<and>
           0 < d' \<and> d' \<le> days_per_4years (year_index ey' m) \<and>
           ymd_ord ey' m d' = ymd_ord ey m d \<and> k' \<le> k + j"
  using assms
proof (induction j arbitrary: d ey k)
  case 0
  then have "d \<le> days_per_4years (year_index ey m)"
    by (simp add: ymd_ord_add_4years)
  with 0 show ?case
    by (subst years4_loop.simps) simp
next
  case (Suc j)
  define n where "n = days_per_4years (year_index ey m)"
  show ?case
  proof (cases "d \<le> n")
    case True
    with Suc.prems show ?thesis
      by (subst years4_loop.simps) (simp add: n_def)
  next
    case False
    have step: "years4_loop d ey (year_index ey m) k =
                years4_loop (d - n) (ey + 4) (year_index (ey + 4) m) (Suc k)"
      using False
      by (subst years4_loop.simps) (simp add: n_def [symmetric] year_index_step [symmetric])
    have c: "ymd_ord (ey + 4) m 1 = ymd_ord ey m 1 + n"
      by (simp add: ymd_ord_add_4years n_def)
    have e: "ey + 4 * (int (Suc j) + 1) = ey + 4 + 4 * (int j + 1)" by simp
    have "0 < d - n" using False by simp
    moreover have "d - n \<le> ymd_ord (ey + 4 + 4 * (int j + 1)) m 1 - ymd_ord (ey + 4) m 1"
      using Suc.prems(2) unfolding e c by linarith
    ultimately obtain d' ey' k' where r:
      "years4_loop (d - n) (ey + 4) (year_index (ey + 4) m) (Suc k) =
         (d', ey', year_index ey' m, k')"
      "0 < d'" "d' \<le> days_per_4years (year_index ey' m)"
      "ymd_ord ey' m d' = ymd_ord (ey + 4) m (d - n)" "k' \<le> Suc k + j"
      using Suc.IH [of "d - n" "ey + 4" "Suc k"] by blast
    have "ymd_ord (ey + 4) m (d - n) = ymd_ord ey m d"
      using c by (simp add: ymd_ord_day1 [of _ _ "d - n"] ymd_ord_day1 [of _ _ d])
    with r step show ?thesis by simp
  qed
qed

lemma year_loop_spec:
  assumes "0 < d" "d \<le> ymd_ord (ey + (int j + 1)) m 1 - ymd_ord ey m 1"
  shows "\<exists>d' ey' k'. year_loop d ey m k = (d', ey', k') \<and>
           0 < d' \<and> d' \<le> days_per_year ey' m \<and>
           ymd_ord ey' m d' = ymd_ord ey m d \<and> k' \<le> k + j"
  using assms
proof (induction j arbitrary: d ey k)
  case 0
  then have "d \<le> days_per_year ey m"
    by (simp add: ymd_ord_add_year)
  with 0 show ?case
    by (subst year_loop.simps) simp
next
  case (Suc j)
  define n where "n = days_per_year ey m"
  show ?case
  proof (cases "d \<le> n")
    case True
    with Suc.prems show ?thesis
      by (subst year_loop.simps) (simp add: n_def)
  next
    case False
    have step: "year_loop d ey m k = year_loop (d - n) (ey + 1) m (Suc k)"
      using False by (subst year_loop.simps) (simp add: n_def [symmetric])
    have c: "ymd_ord (ey + 1) m 1 = ymd_ord ey m 1 + n"
      by (simp add: ymd_ord_add_year n_def)
    have e: "ey + (int (Suc j) + 1) = ey + 1 + (int j + 1)" by simp
    have "0 < d - n" using False by simp
    moreover have "d - n \<le> ymd_ord (ey + 1 + (int j + 1)) m 1 - ymd_ord (ey + 1) m 1"
      using Suc.prems(2) unfolding e c by linarith
    ultimately obtain d' ey' k' where r:
      "year_loop (d - n) (ey + 1) m (Suc k) = (d', ey', k')"
      "0 < d'" "d' \<le> days_per_year ey' m"
      "ymd_ord ey' m d' = ymd_ord (ey + 1) m (d - n)" "k' \<le> Suc k + j"
      using Suc.IH [of "d - n" "ey + 1" "Suc k"] by blast
    have "ymd_ord (ey + 1) m (d - n) = ymd_ord ey m d"
      using c by (simp add: ymd_ord_day1 [of _ _ "d - n"] ymd_ord_day1 [of _ _ d])
    with r step show ?thesis by simp
  qed
qed

lemma month_loop_spec:
  assumes "1 \<le> m" "m \<le> 12" "0 < d"
    "d \<le> ord1 ((next_month ^^ Suc j) (ey, m)) - ord1 (ey, m)"
  shows "\<exists>d' ey' m' k' n'. month_loop d ey m k = Some (d', ey', m', k') \<and>
           1 \<le> m' \<and> m' \<le> 12 \<and> 0 < d' \<and> days_per_month ey' m' = Some n' \<and> d' \<le> n' \<and>
           ymd_ord ey' m' d' = ymd_ord ey m d \<and> k' \<le> k + j"
  using assms
proof (induction j arbitrary: d ey m k)
  case 0
  obtain n where n: "days_per_month ey m = Some n"
    using days_per_month_ex [OF "0.prems"(1,2)] by blast
  have "d \<le> n"
    using "0.prems"(4) ord1_next_month [OF "0.prems"(1,2) n] by simp
  with 0 n show ?case
    by (subst month_loop.simps) simp
next
  case (Suc j)
  obtain n where n: "days_per_month ey m = Some n"
    using days_per_month_ex [OF Suc.prems(1,2)] by blast
  show ?case
  proof (cases "d \<le> n")
    case True
    with Suc.prems n show ?thesis
      by (subst month_loop.simps) simp
  next
    case False
    obtain ey1 m1 where nm: "next_month (ey, m) = (ey1, m1)" by fastforce
    have m1: "1 \<le> m1" "m1 \<le> 12"
      using next_month_range [OF Suc.prems(1,2), of ey] nm by simp_all
    have step: "month_loop d ey m k = month_loop (d - n) ey1 m1 (Suc k)"
      using False n nm
      by (subst month_loop.simps) (auto simp: next_month_def split: if_splits)
    have c: "ord1 (ey1, m1) = ord1 (ey, m) + n"
      using ord1_next_month [OF Suc.prems(1,2) n] nm by simp
    have e: "(next_month ^^ Suc (Suc j)) (ey, m) = (next_month ^^ Suc j) (ey1, m1)"
      using nm by (simp add: funpow_swap1)
    have "0 < d - n" using False by simp
    moreover have "d - n \<le> ord1 ((next_month ^^ Suc j) (ey1, m1)) - ord1 (ey1, m1)"
      using Suc.prems(4) unfolding e c by linarith
    ultimately obtain d' ey' m' k' n' where r:
      "month_loop (d - n) ey1 m1 (Suc k) = Some (d', ey', m', k')"
      "1 \<le> m'" "m' \<le> 12" "0 < d'" "days_per_month ey' m' = Some n'" "d' \<le> n'"
      "ymd_ord ey' m' d' = ymd_ord ey1 m1 (d - n)" "k' \<le> Suc k + j"
      using Suc.IH [OF m1, of "d - n" ey1 "Suc k"] by blast
    have "ymd_ord ey1 m1 (d - n) = ymd_ord ey m d"
      using c by (simp add: ord1_def ymd_ord_day1 [of _ _ "d - n"] ymd_ord_day1 [of _ _ d])
    with r step show ?thesis by simp
  qed
qed

section \<open>\<open>n_day\<close>, specified\<close>

lemma smod_range: "0 < b \<Longrightarrow> - b < a smod b \<and> a smod b < b" for a b :: int
  using mod_range [of b a] by (auto simp: smod_floor)

lemma n_day_cycles_spec:
  "\<exists>ey d1. n_day_cycles y m d cd = (ey, d1) \<and> 0 < d1 \<and> d1 \<le> 146097 \<and>
     ymd_ord ey m d1 = ymd_ord (y smod 400) m d + cd"
proof -
  define base where "base = y smod 400"
  define A where "A = cd sdiv 146097"
  define B where "B = cd smod 146097"
  define C where "C = d sdiv 146097"
  define D where "D = d smod 146097"
  define a1 where "a1 = (if B < 0 then A - 1 else A)"
  define cd1 where "cd1 = (if B < 0 then B + 146097 else B)"
  define ey2 where "ey2 = base + 400 * (a1 + C)"
  define d2 where "d2 = D + cd1"
  have AB: "146097 * A + B = cd" unfolding A_def B_def by (rule sdiv_smod_id)
  have CD: "146097 * C + D = d" unfolding C_def D_def by (rule sdiv_smod_id)
  have B: "- 146097 < B" "B < 146097" using smod_range [of 146097 cd] by (simp_all add: B_def)
  have D: "- 146097 < D" "D < 146097" using smod_range [of 146097 d] by (simp_all add: D_def)
  have cd1: "0 \<le> cd1" "cd1 < 146097" "146097 * a1 + cd1 = cd"
    using B AB by (auto simp: cd1_def a1_def)
  have d2: "- 146097 < d2" "d2 < 2 * 146097" using D cd1 by (simp_all add: d2_def)
  have unf: "n_day_cycles y m d cd =
      (if d2 > 0 then (if d2 > 146097 then (ey2 + 400, d2 - 146097) else (ey2, d2))
       else if d2 > - 365 then (ey2 - 1, d2 + days_per_year (ey2 - 1) m)
       else (ey2 - 400, d2 + 146097))"
    unfolding n_day_cycles_def Let_def base_def [symmetric] A_def [symmetric] B_def [symmetric]
      C_def [symmetric] D_def [symmetric]
    by (simp add: ey2_def d2_def a1_def cd1_def algebra_simps)
  have inv: "ymd_ord (ey2 + 400 * k) m (d2 - 146097 * k) = ymd_ord base m d + cd" for k
  proof -
    have "ey2 + 400 * k = base + 400 * (a1 + C + k)" by (simp add: ey2_def)
    then have "ymd_ord (ey2 + 400 * k) m (d2 - 146097 * k) =
        ymd_ord base m 1 + 146097 * (a1 + C + k) + (d2 - 146097 * k - 1)"
      by (simp only: ymd_ord_add_400 ymd_ord_day1 [of _ _ "d2 - 146097 * k"])
    also have "\<dots> = ymd_ord base m 1 + (d - 1) + cd"
      using cd1(3) CD by (simp add: d2_def)
    finally show ?thesis by (simp add: ymd_ord_day1 [of _ _ d])
  qed
  have yr: "ymd_ord (ey2 - 1) m (d2 + days_per_year (ey2 - 1) m) = ymd_ord base m d + cd"
  proof -
    have "ymd_ord (ey2 - 1) m (d2 + days_per_year (ey2 - 1) m) = ymd_ord (ey2 - 1 + 1) m d2"
      unfolding ymd_ord_add_year by (simp add: ymd_ord_day1 [of _ _ "d2 + _"] ymd_ord_day1 [of _ _ d2])
    then show ?thesis using inv [of 0] by simp
  qed
  have dpy: "365 \<le> days_per_year (ey2 - 1) m" "days_per_year (ey2 - 1) m \<le> 366"
    by (simp_all add: days_per_year_def)
  consider "d2 > 146097" | "0 < d2" "d2 \<le> 146097" | "d2 \<le> 0" "d2 > - 365" | "d2 \<le> - 365"
    by linarith
  then show ?thesis
  proof cases
    case 1
    then show ?thesis using d2 inv [of 1] by (simp add: unf base_def)
  next
    case 2
    then show ?thesis using inv [of 0] by (simp add: unf base_def)
  next
    case 3
    then show ?thesis using yr dpy by (simp add: unf base_def)
  next
    case 4
    then show ?thesis using d2 inv [of "- 1"] by (simp add: unf base_def)
  qed
qed

lemma n_day_years_spec:
  assumes "0 < d" "d \<le> 146097"
  shows "\<exists>ey' d' c100 c4 c1. n_day_years ey m d = ((ey', d'), (c100, c4, c1)) \<and>
           0 < d' \<and> d' \<le> days_per_year ey' m \<and> ymd_ord ey' m d' = ymd_ord ey m d \<and>
           c100 \<le> 3 \<and> c4 \<le> 24 \<and> c1 \<le> 3"
proof (cases "d > 365")
  case False
  have "365 \<le> days_per_year ey m" by (simp add: days_per_year_def)
  with False assms show ?thesis by (simp add: n_day_years_def)
next
  case True
  have "ymd_ord (ey + 100 * (int 3 + 1)) m 1 = ymd_ord ey m 1 + 146097"
    using ymd_ord_add_400 [of ey 1 m 1] by simp
  with assms obtain d1 ey1 k1 where 1:
    "century_loop d ey (year_index ey m) 0 = (d1, ey1, year_index ey1 m, k1)"
    "0 < d1" "d1 \<le> days_per_century (year_index ey1 m)"
    "ymd_ord ey1 m d1 = ymd_ord ey m d" "k1 \<le> 3"
    using century_loop_spec [of d ey 3 m 0] by auto
  have "ymd_ord (ey1 + 4 * (int 24 + 1)) m 1 = ymd_ord ey1 m 1 + days_per_century (year_index ey1 m)"
    using ymd_ord_add_century [of ey1 m 1] by simp
  with 1 obtain d2 ey2 k2 where 2:
    "years4_loop d1 ey1 (year_index ey1 m) 0 = (d2, ey2, year_index ey2 m, k2)"
    "0 < d2" "d2 \<le> days_per_4years (year_index ey2 m)"
    "ymd_ord ey2 m d2 = ymd_ord ey1 m d1" "k2 \<le> 24"
    using years4_loop_spec [of d1 ey1 24 m 0] by auto
  have "ymd_ord (ey2 + (int 3 + 1)) m 1 = ymd_ord ey2 m 1 + days_per_4years (year_index ey2 m)"
    using ymd_ord_add_4years [of ey2 m 1] by simp
  with 2 obtain d3 ey3 k3 where 3:
    "year_loop d2 ey2 m 0 = (d3, ey3, k3)"
    "0 < d3" "d3 \<le> days_per_year ey3 m"
    "ymd_ord ey3 m d3 = ymd_ord ey2 m d2" "k3 \<le> 3"
    using year_loop_spec [of d2 ey2 3 m 0] by auto
  from True 1 2 3 show ?thesis
    by (simp add: n_day_years_def)
qed

lemma n_day_months_spec:
  assumes "1 \<le> m" "m \<le> 12" "0 < d" "d \<le> days_per_year ey m"
  shows "\<exists>d' ey' m' cm n'. n_day_months ey m d = Some (d', ey', m', cm) \<and>
           1 \<le> m' \<and> m' \<le> 12 \<and> 0 < d' \<and> days_per_month ey' m' = Some n' \<and> d' \<le> n' \<and>
           ymd_ord ey' m' d' = ymd_ord ey m d \<and> cm \<le> 11"
proof (cases "d > 28")
  case False
  obtain n where "days_per_month ey m = Some n" "28 \<le> n"
    using days_per_month_ex [OF assms(1,2)] by blast
  with False assms show ?thesis by (simp add: n_day_months_def)
next
  case True
  have "ord1 ((next_month ^^ Suc 11) (ey, m)) = ord1 (ey, m) + days_per_year ey m"
    using next_month_12 [OF assms(1,2), of ey] by (simp add: ord1_def ymd_ord_add_year)
  with assms(4) have "d \<le> ord1 ((next_month ^^ Suc 11) (ey, m)) - ord1 (ey, m)"
    by simp
  from month_loop_spec [OF assms(1,2,3) this, of 0] True show ?thesis
    by (simp add: n_day_months_def)
qed

lemma n_day_run_spec:
  assumes "1 \<le> m" "m \<le> 12"
  shows "\<exists>ey' m' d' n' c100 c4 c1 cm.
           n_day_run y m d cd = Some ((ey', m', d'), (c100, c4, c1, cm)) \<and>
           1 \<le> m' \<and> m' \<le> 12 \<and> 1 \<le> d' \<and> days_per_month ey' m' = Some n' \<and> d' \<le> n' \<and>
           ymd_ord ey' m' d' = ymd_ord (y smod 400) m d + cd \<and>
           c100 \<le> 3 \<and> c4 \<le> 24 \<and> c1 \<le> 3 \<and> cm \<le> 11"
proof -
  obtain ey1 d1 where 1: "n_day_cycles y m d cd = (ey1, d1)" "0 < d1" "d1 \<le> 146097"
    "ymd_ord ey1 m d1 = ymd_ord (y smod 400) m d + cd"
    using n_day_cycles_spec [of y m d cd] by blast
  obtain ey2 d2 c100 c4 c1 where 2: "n_day_years ey1 m d1 = ((ey2, d2), (c100, c4, c1))"
    "0 < d2" "d2 \<le> days_per_year ey2 m" "ymd_ord ey2 m d2 = ymd_ord ey1 m d1"
    "c100 \<le> 3" "c4 \<le> 24" "c1 \<le> 3"
    using n_day_years_spec [OF 1(2,3), of ey1 m] by blast
  obtain d3 ey3 m3 cm n3 where 3: "n_day_months ey2 m d2 = Some (d3, ey3, m3, cm)"
    "1 \<le> m3" "m3 \<le> 12" "0 < d3" "days_per_month ey3 m3 = Some n3" "d3 \<le> n3"
    "ymd_ord ey3 m3 d3 = ymd_ord ey2 m d2" "cm \<le> 11"
    using n_day_months_spec [OF assms 2(2,3)] by blast
  from 1 2 3 show ?thesis
    by (simp add: n_day_run_def)
qed

section \<open>The cascade\<close>

lemma mk_fields_sel [simp]:
  "year (mk_fields y m d hh mm ss) = y" "month (mk_fields y m d hh mm ss) = m"
  "day (mk_fields y m d hh mm ss) = d" "hour (mk_fields y m d hh mm ss) = hh"
  "minute (mk_fields y m d hh mm ss) = mm" "second (mk_fields y m d hh mm ss) = ss"
  by (simp_all add: mk_fields_def)

lemma raw_ord_month:
  assumes "1 \<le> m" "m \<le> 12"
  shows "raw_ord y m d = ymd_ord y m d"
proof -
  have "m - 1 = 12 * 0 + (m - 1)" by simp
  moreover have "0 \<le> m - 1" "m - 1 < 12" using assms by simp_all
  ultimately have "(m - 1) div 12 = 0" "(m - 1) mod 12 = m - 1"
    by (rule divmod_unique)+
  then show ?thesis by (simp add: raw_ord_def)
qed

lemma raw_ord_day: "raw_ord y m (d + k) = raw_ord y m d + k"
  by (simp add: raw_ord_def ymd_ord_day)

lemma is_leap_year_add_400: "is_leap_year (e + 400 * k) = is_leap_year e"
proof -
  obtain q c t u where p: "year_parts e q c t u" using year_parts_ex by blast
  show ?thesis
    by (simp add: is_leap_year_parts [OF p] is_leap_year_parts [OF year_parts_add_400 [OF p]])
qed

lemma days_per_month_add_400: "days_per_month (e + 400 * k) m = days_per_month e m"
  by (simp add: days_per_month_def is_leap_year_add_400)

lemma n_day_spec:
  assumes "1 \<le> m" "m \<le> 12" "0 \<le> hh" "hh \<le> 23" "0 \<le> mm" "mm \<le> 59" "0 \<le> ss" "ss \<le> 59"
  shows "\<exists>f. n_day y m d cd hh mm ss = Some f \<and> normalized f \<and>
           hour f = hh \<and> minute f = mm \<and> second f = ss \<and>
           date_ord f = ymd_ord y m d + cd"
proof -
  obtain ey' m' d' n' c100 c4 c1 cm where r:
    "n_day_run y m d cd = Some ((ey', m', d'), (c100, c4, c1, cm))"
    "1 \<le> m'" "m' \<le> 12" "1 \<le> d'" "days_per_month ey' m' = Some n'" "d' \<le> n'"
    "ymd_ord ey' m' d' = ymd_ord (y smod 400) m d + cd"
    using n_day_run_spec [OF assms(1,2), of y d cd] by blast
  define k where "k = y sdiv 400"
  have y: "y = y smod 400 + 400 * k"
    using sdiv_smod_id [of 400 y] by (simp add: k_def)
  then have yy: "y + (ey' - y smod 400) = ey' + 400 * k" by simp
  have "n' \<le> 31" using days_per_month_Some [OF r(5)] by auto
  then have nd: "narrow8 d' = d'" using r(4,6) by (intro narrow8_id) simp_all
  define f where "f = mk_fields (ey' + 400 * k) m' d' hh mm ss"
  have "n_day y m d cd hh mm ss = Some f"
    by (simp add: n_day_def r(1) yy nd f_def)
  moreover have "normalized f"
    using r assms by (simp add: normalized_def f_def days_per_month_add_400)
  moreover have "date_ord f = ymd_ord y m d + cd"
  proof -
    have "date_ord f = ymd_ord (y smod 400) m d + cd + 146097 * k"
      by (simp add: date_ord_def f_def ymd_ord_add_400 r(7))
    also have "\<dots> = ymd_ord (y smod 400 + 400 * k) m d + cd"
      by (simp add: ymd_ord_add_400)
    finally show ?thesis using y by simp
  qed
  ultimately show ?thesis by (simp add: f_def)
qed

lemma n_mon_months:
  "(if m \<noteq> 12 then
      (let y = y + m sdiv 12; m = m smod 12
       in if m \<le> 0 then (y - 1, m + 12) else (y, m))
    else (y, m)) = (y + (m - 1) div 12, (m - 1) mod 12 + 1)"
  for y m :: int
proof -
  define q where "q = (m - 1) div 12"
  define r where "r = (m - 1) mod 12"
  have m: "m = 12 * q + r + 1" and r: "0 \<le> r" "r < 12"
    using div_mult_mod_eq [of "m - 1" 12] by (simp_all add: q_def r_def)
  show ?thesis
  proof (cases "r = 11")
    case True
    have "m = 12 * (q + 1) + 0" using m True by simp
    then have dm: "m div 12 = q + 1" "m mod 12 = 0"
      by (rule divmod_unique; simp)+
    have "m = 12 \<Longrightarrow> q = 0" using m True by simp
    then show ?thesis
      using dm True
      by (simp add: sdiv_floor smod_floor Let_def q_def [symmetric] r_def [symmetric])
  next
    case False
    have "m = 12 * q + (r + 1)" using m by simp
    moreover have "0 \<le> r + 1" "r + 1 < 12" using r False by simp_all
    ultimately have dm: "m div 12 = q" "m mod 12 = r + 1"
      by (rule divmod_unique)+
    have "m = 12 \<Longrightarrow> r = 11" by (simp add: r_def)
    then have "m \<noteq> 12" using False by blast
    then show ?thesis
      using dm r
      by (simp add: sdiv_floor smod_floor Let_def q_def [symmetric] r_def [symmetric])
  qed
qed

lemma n_mon_spec:
  assumes "0 \<le> hh" "hh \<le> 23" "0 \<le> mm" "mm \<le> 59" "0 \<le> ss" "ss \<le> 59"
  shows "\<exists>f. n_mon y m d cd hh mm ss = Some f \<and> normalized f \<and>
           hour f = hh \<and> minute f = mm \<and> second f = ss \<and>
           date_ord f = raw_ord y m d + cd"
proof -
  define m' where "m' = (m - 1) mod 12 + 1"
  have m': "1 \<le> m'" "m' \<le> 12"
    using mod_range [of 12 "m - 1"] by (simp_all add: m'_def)
  then have nm: "narrow8 m' = m'" by (intro narrow8_id) simp_all
  have "n_mon y m d cd hh mm ss = n_day (y + (m - 1) div 12) m' d cd hh mm ss"
    unfolding n_mon_def n_mon_months by (simp add: m'_def [symmetric] nm)
  then show ?thesis
    using n_day_spec [OF m' assms, of "y + (m - 1) div 12" d cd]
    by (simp add: raw_ord_def m'_def)
qed

lemma n_hour_spec:
  assumes "0 \<le> mm" "mm \<le> 59" "0 \<le> ss" "ss \<le> 59"
  shows "\<exists>f. n_hour y m d cd hh mm ss = Some f \<and> normalized f \<and>
           minute f = mm \<and> second f = ss \<and>
           date_ord f * 24 + hour f = (raw_ord y m d + cd) * 24 + hh"
proof -
  define h' where "h' = hh mod 24"
  have h': "0 \<le> h'" "h' \<le> 23"
    using mod_range [of 24 hh] by (simp_all add: h'_def)
  then have nh: "narrow8 h' = h'" by (intro narrow8_id) simp_all
  have "(if hh smod 24 < 0 then (cd + hh sdiv 24 - 1, hh smod 24 + 24)
         else (cd + hh sdiv 24, hh smod 24)) = (cd + hh div 24, h')"
    using floor_fix [of 24 hh] by (simp add: h'_def split: if_splits)
  then have "n_hour y m d cd hh mm ss = n_mon y m d (cd + hh div 24) h' mm ss"
    by (simp add: n_hour_def Let_def nh)
  moreover have "(raw_ord y m d + (cd + hh div 24)) * 24 + h' = (raw_ord y m d + cd) * 24 + hh"
    using div_mult_mod_eq [of hh 24] by (simp add: h'_def algebra_simps)
  ultimately show ?thesis
    using n_mon_spec [OF h' assms, of y m d "cd + hh div 24"] by auto
qed

lemma n_min_spec:
  assumes "0 \<le> ss" "ss \<le> 59"
  shows "\<exists>f. n_min y m d hh ch mm ss = Some f \<and> normalized f \<and> second f = ss \<and>
           (date_ord f * 24 + hour f) * 60 + minute f = (raw_ord y m d * 24 + hh + ch) * 60 + mm"
proof -
  define m' where "m' = mm mod 60"
  define c' where "c' = ch + mm div 60"
  have m': "0 \<le> m'" "m' \<le> 59"
    using mod_range [of 60 mm] by (simp_all add: m'_def)
  then have nm: "narrow8 m' = m'" by (intro narrow8_id) simp_all
  have "(if mm smod 60 < 0 then (ch + mm sdiv 60 - 1, mm smod 60 + 60)
         else (ch + mm sdiv 60, mm smod 60)) = (c', m')"
    using floor_fix [of 60 mm] by (simp add: m'_def c'_def split: if_splits)
  then have unf: "n_min y m d hh ch mm ss =
      n_hour y m d (hh sdiv 24 + c' sdiv 24) (hh smod 24 + c' smod 24) m' ss"
    by (simp add: n_min_def Let_def nm)
  obtain f where f: "n_hour y m d (hh sdiv 24 + c' sdiv 24) (hh smod 24 + c' smod 24) m' ss = Some f"
    "normalized f" "minute f = m'" "second f = ss"
    "date_ord f * 24 + hour f =
       (raw_ord y m d + (hh sdiv 24 + c' sdiv 24)) * 24 + (hh smod 24 + c' smod 24)"
    using n_hour_spec [OF m' assms] by blast
  have "date_ord f * 24 + hour f = raw_ord y m d * 24 + hh + c'"
    using f(5) sdiv_smod_id [of 24 hh] sdiv_smod_id [of 24 c'] by (simp add: algebra_simps)
  moreover have "c' * 60 + m' = ch * 60 + mm"
    using div_mult_mod_eq [of mm 60] by (simp add: c'_def m'_def algebra_simps)
  ultimately have "(date_ord f * 24 + hour f) * 60 + minute f =
      (raw_ord y m d * 24 + hh + ch) * 60 + mm"
    using f(3) by (simp add: algebra_simps)
  with f unf show ?thesis by simp
qed

lemma n_sec_spec:
  "\<exists>f. n_sec y m d hh mm ss = Some f \<and> normalized f \<and> secs f = raw_secs y m d hh mm ss"
proof (cases "0 \<le> ss \<and> ss < 60")
  case sec: True
  then have s: "0 \<le> ss" "ss \<le> 59" and ns: "narrow8 ss = ss"
    by (simp_all add: narrow8_id)
  show ?thesis
  proof (cases "0 \<le> mm \<and> mm < 60")
    case min: True
    then have mn: "0 \<le> mm" "mm \<le> 59" and nm: "narrow8 mm = mm"
      by (simp_all add: narrow8_id)
    show ?thesis
    proof (cases "0 \<le> hh \<and> hh < 24")
      case hr: True
      then have h: "0 \<le> hh" "hh \<le> 23" and nh: "narrow8 hh = hh"
        by (simp_all add: narrow8_id)
      show ?thesis
      proof (cases "1 \<le> d \<and> d \<le> 28 \<and> 1 \<le> m \<and> m \<le> 12")
        case True
        then have md: "narrow8 m = m" "narrow8 d = d"
          by (simp_all add: narrow8_id)
        obtain n where n: "days_per_month y m = Some n" "28 \<le> n"
          using days_per_month_ex [of m y] True by blast
        have "n_sec y m d hh mm ss = Some (mk_fields y m d hh mm ss)"
          using sec min hr True by (simp add: n_sec_def ns nm nh md)
        moreover have "normalized (mk_fields y m d hh mm ss)"
          using True s mn h n by (simp add: normalized_def)
        moreover have "secs (mk_fields y m d hh mm ss) = raw_secs y m d hh mm ss"
          using True by (simp add: secs_def raw_secs_def date_ord_def raw_ord_month)
        ultimately show ?thesis by simp
      next
        case False
        then have "n_sec y m d hh mm ss = n_mon y m d 0 hh mm ss"
          using sec min hr by (auto simp: n_sec_def ns nm nh)
        then show ?thesis
          using n_mon_spec [OF h mn s, of y m d 0]
          by (auto simp: secs_def raw_secs_def)
      qed
    next
      case False
      then have "n_sec y m d hh mm ss = n_hour y m d (hh sdiv 24) (hh smod 24) mm ss"
        using sec min by (auto simp: n_sec_def ns nm)
      moreover obtain f where f: "n_hour y m d (hh sdiv 24) (hh smod 24) mm ss = Some f"
        "normalized f" "minute f = mm" "second f = ss"
        "date_ord f * 24 + hour f = (raw_ord y m d + hh sdiv 24) * 24 + hh smod 24"
        using n_hour_spec [OF mn s] by blast
      moreover have "date_ord f * 24 + hour f = raw_ord y m d * 24 + hh"
        using f(5) sdiv_smod_id [of 24 hh] by (simp add: algebra_simps)
      ultimately show ?thesis
        by (simp add: secs_def raw_secs_def)
    qed
  next
    case False
    then have "n_sec y m d hh mm ss = n_min y m d hh (mm sdiv 60) (mm smod 60) ss"
      using sec by (auto simp: n_sec_def ns)
    moreover obtain f where f: "n_min y m d hh (mm sdiv 60) (mm smod 60) ss = Some f"
      "normalized f" "second f = ss"
      "(date_ord f * 24 + hour f) * 60 + minute f =
         (raw_ord y m d * 24 + hh + mm sdiv 60) * 60 + mm smod 60"
      using n_min_spec [OF s] by blast
    moreover have "(date_ord f * 24 + hour f) * 60 + minute f = (raw_ord y m d * 24 + hh) * 60 + mm"
      using f(4) sdiv_smod_id [of 60 mm] by (simp add: algebra_simps)
    ultimately show ?thesis
      by (simp add: secs_def raw_secs_def)
  qed
next
  case False
  define s' where "s' = ss mod 60"
  define cm where "cm = ss div 60"
  have s': "0 \<le> s'" "s' \<le> 59"
    using mod_range [of 60 ss] by (simp_all add: s'_def)
  then have ns: "narrow8 s' = s'" by (intro narrow8_id) simp_all
  have "(if ss smod 60 < 0 then (ss sdiv 60 - 1, ss smod 60 + 60)
         else (ss sdiv 60, ss smod 60)) = (cm, s')"
    using floor_fix [of 60 ss] by (simp add: s'_def cm_def)
  then have unf: "n_sec y m d hh mm ss =
      n_min y m d hh (mm sdiv 60 + cm sdiv 60) (mm smod 60 + cm smod 60) s'"
    using False by (auto simp: n_sec_def Let_def ns)
  obtain f where f: "n_min y m d hh (mm sdiv 60 + cm sdiv 60) (mm smod 60 + cm smod 60) s' = Some f"
    "normalized f" "second f = s'"
    "(date_ord f * 24 + hour f) * 60 + minute f =
       (raw_ord y m d * 24 + hh + (mm sdiv 60 + cm sdiv 60)) * 60 + (mm smod 60 + cm smod 60)"
    using n_min_spec [OF s'] by blast
  have "(date_ord f * 24 + hour f) * 60 + minute f = (raw_ord y m d * 24 + hh) * 60 + mm + cm"
    using f(4) sdiv_smod_id [of 60 mm] sdiv_smod_id [of 60 cm] by (simp add: algebra_simps)
  moreover have "cm * 60 + s' = ss"
    using div_mult_mod_eq [of ss 60] by (simp add: cm_def s'_def)
  ultimately have "secs f = raw_secs y m d hh mm ss"
    using f(3) by (simp add: secs_def raw_secs_def algebra_simps)
  with f unf show ?thesis by simp
qed

section \<open>The order of canonical fields\<close>

lemma raw_ord_next:
  "\<exists>n. 28 \<le> n \<and> n \<le> 31 \<and>
     days_per_month (y + (m - 1) div 12) ((m - 1) mod 12 + 1) = Some n \<and>
     raw_ord y (m + 1) 1 = raw_ord y m 1 + n"
proof -
  define q where "q = (m - 1) div 12"
  define r where "r = (m - 1) mod 12"
  have m: "m = 12 * q + r + 1" and r: "0 \<le> r" "r < 12"
    using div_mult_mod_eq [of "m - 1" 12] by (simp_all add: q_def r_def)
  have mo: "1 \<le> r + 1" "r + 1 \<le> 12" using r by simp_all
  obtain n where n: "days_per_month (y + q) (r + 1) = Some n" "28 \<le> n" "n \<le> 31"
    using days_per_month_ex [OF mo] by blast
  have nx: "(y + m div 12, m mod 12 + 1) = next_month (y + q, r + 1)"
  proof (cases "r = 11")
    case True
    have "m = 12 * (q + 1) + 0" using m True by simp
    then have "m div 12 = q + 1" "m mod 12 = 0"
      by (rule divmod_unique; simp)+
    then show ?thesis using True by (simp add: next_month_def)
  next
    case False
    have "m = 12 * q + (r + 1)" using m by simp
    moreover have "0 \<le> r + 1" "r + 1 < 12" using r False by simp_all
    ultimately have "m div 12 = q" "m mod 12 = r + 1"
      by (rule divmod_unique)+
    then show ?thesis using False r by (simp add: next_month_def)
  qed
  have "raw_ord y (m + 1) 1 = ord1 (y + m div 12, m mod 12 + 1)"
    by (simp add: raw_ord_def ord1_def)
  also have "\<dots> = ord1 (y + q, r + 1) + n"
    unfolding nx by (rule ord1_next_month [OF mo n(1)])
  also have "ord1 (y + q, r + 1) = raw_ord y m 1"
    by (simp add: raw_ord_def ord1_def q_def r_def)
  finally show ?thesis using n by (auto simp: q_def r_def)
qed

lemma raw_ord_mono_nat: "raw_ord y m 1 + 28 * int k \<le> raw_ord y (m + int k) 1"
proof (induction k)
  case 0
  then show ?case by simp
next
  case (Suc k)
  obtain n where "28 \<le> n" "raw_ord y (m + int k + 1) 1 = raw_ord y (m + int k) 1 + n"
    using raw_ord_next [of y "m + int k"] by blast
  then have "raw_ord y (m + int (Suc k)) 1 = raw_ord y (m + int k) 1 + n" "28 \<le> n"
    by (simp_all add: ac_simps)
  then show ?case using Suc by simp
qed

lemma raw_ord_mono: "m \<le> m' \<Longrightarrow> raw_ord y m 1 \<le> raw_ord y m' 1"
  using raw_ord_mono_nat [of y m "nat (m' - m)"] by simp

lemma date_ord_bounds:
  assumes "normalized f"
  shows "raw_ord 0 (month_index f) 1 \<le> date_ord f"
    "date_ord f < raw_ord 0 (month_index f + 1) 1"
proof -
  from assms have m: "1 \<le> month f" "month f \<le> 12" and d: "1 \<le> day f"
    by (simp_all add: normalized_def)
  from assms obtain n where n: "days_per_month (year f) (month f) = Some n" "day f \<le> n"
    by (auto simp: normalized_def split: option.splits)
  have "month_index f - 1 = 12 * year f + (month f - 1)" by (simp add: month_index_def)
  moreover have "0 \<le> month f - 1" "month f - 1 < 12" using m by simp_all
  ultimately have dm: "(month_index f - 1) div 12 = year f" "(month_index f - 1) mod 12 = month f - 1"
    by (rule divmod_unique)+
  have a: "raw_ord 0 (month_index f) 1 = ymd_ord (year f) (month f) 1"
    by (simp add: raw_ord_def dm)
  have b: "date_ord f = ymd_ord (year f) (month f) 1 + (day f - 1)"
    unfolding date_ord_def by (rule ymd_ord_day1)
  show "raw_ord 0 (month_index f) 1 \<le> date_ord f" using a b d by simp
  obtain n' where "days_per_month (0 + (month_index f - 1) div 12) ((month_index f - 1) mod 12 + 1) = Some n'"
    "raw_ord 0 (month_index f + 1) 1 = raw_ord 0 (month_index f) 1 + n'"
    using raw_ord_next [of 0 "month_index f"] by blast
  then have "raw_ord 0 (month_index f + 1) 1 = raw_ord 0 (month_index f) 1 + n"
    using n(1) by (simp add: dm)
  then show "date_ord f < raw_ord 0 (month_index f + 1) 1" using a b n(2) by simp
qed

lemma date_ord_less:
  assumes "normalized f" "normalized g" "month_index f < month_index g"
  shows "date_ord f < date_ord g"
proof -
  have "date_ord f < raw_ord 0 (month_index f + 1) 1"
    by (rule date_ord_bounds(2) [OF assms(1)])
  also have "\<dots> \<le> raw_ord 0 (month_index g) 1"
    using assms(3) by (intro raw_ord_mono) simp
  also have "\<dots> \<le> date_ord g"
    by (rule date_ord_bounds(1) [OF assms(2)])
  finally show ?thesis .
qed

lemma month_index_inj:
  assumes "normalized f" "normalized g" "month_index f = month_index g"
  shows "year f = year g" "month f = month g"
proof -
  from assms have m: "1 \<le> month f" "month f \<le> 12" "1 \<le> month g" "month g \<le> 12"
    by (simp_all add: normalized_def)
  have a: "month_index f - 1 = 12 * year f + (month f - 1)" by (simp add: month_index_def)
  have b: "month_index f - 1 = 12 * year g + (month g - 1)"
    using assms(3) by (simp add: month_index_def)
  have "(month_index f - 1) div 12 = year f"
    by (rule divmod_unique(1) [OF a]) (use m in simp_all)
  moreover have "(month_index f - 1) div 12 = year g"
    by (rule divmod_unique(1) [OF b]) (use m in simp_all)
  ultimately show "year f = year g" by simp
  have "(month_index f - 1) mod 12 = month f - 1"
    by (rule divmod_unique(2) [OF a]) (use m in simp_all)
  moreover have "(month_index f - 1) mod 12 = month g - 1"
    by (rule divmod_unique(2) [OF b]) (use m in simp_all)
  ultimately show "month f = month g" by simp
qed

lemma date_ord_inj:
  assumes "normalized f" "normalized g" "date_ord f = date_ord g"
  shows "year f = year g \<and> month f = month g \<and> day f = day g"
proof -
  have "\<not> month_index f < month_index g" "\<not> month_index g < month_index f"
    using date_ord_less [OF assms(1,2)] date_ord_less [OF assms(2,1)] assms(3) by auto
  then have "month_index f = month_index g" by simp
  then have ym: "year f = year g" "month f = month g"
    by (rule month_index_inj [OF assms(1,2)])+
  moreover have "day f = day g"
    using assms(3) ym
    by (simp add: date_ord_def ymd_ord_day1 [of _ _ "day f"] ymd_ord_day1 [of _ _ "day g"])
  ultimately show ?thesis by simp
qed

lemma secs_split:
  assumes "normalized f"
  shows "secs f div 60 = (date_ord f * 24 + hour f) * 60 + minute f"
    "secs f mod 60 = second f"
    "((date_ord f * 24 + hour f) * 60 + minute f) div 60 = date_ord f * 24 + hour f"
    "((date_ord f * 24 + hour f) * 60 + minute f) mod 60 = minute f"
    "(date_ord f * 24 + hour f) div 24 = date_ord f"
    "(date_ord f * 24 + hour f) mod 24 = hour f"
proof -
  from assms have r: "0 \<le> hour f" "hour f < 24" "0 \<le> minute f" "minute f < 60"
    "0 \<le> second f" "second f < 60"
    by (simp_all add: normalized_def)
  have a: "secs f = 60 * ((date_ord f * 24 + hour f) * 60 + minute f) + second f"
    by (simp add: secs_def)
  show "secs f div 60 = (date_ord f * 24 + hour f) * 60 + minute f" "secs f mod 60 = second f"
    using a r(5,6) by (rule divmod_unique)+
  have b: "(date_ord f * 24 + hour f) * 60 + minute f = 60 * (date_ord f * 24 + hour f) + minute f"
    by simp
  show "((date_ord f * 24 + hour f) * 60 + minute f) div 60 = date_ord f * 24 + hour f"
    "((date_ord f * 24 + hour f) * 60 + minute f) mod 60 = minute f"
    using b r(3,4) by (rule divmod_unique)+
  have c: "date_ord f * 24 + hour f = 24 * date_ord f + hour f" by simp
  show "(date_ord f * 24 + hour f) div 24 = date_ord f" "(date_ord f * 24 + hour f) mod 24 = hour f"
    using c r(1,2) by (rule divmod_unique)+
qed

lemma secs_inj:
  assumes "normalized f" "normalized g" "secs f = secs g"
  shows "f = g"
proof -
  have s: "second f = second g"
    using secs_split(2) [OF assms(1)] secs_split(2) [OF assms(2)] assms(3) by simp
  have 1: "(date_ord f * 24 + hour f) * 60 + minute f = (date_ord g * 24 + hour g) * 60 + minute g"
    using secs_split(1) [OF assms(1)] secs_split(1) [OF assms(2)] assms(3) by simp
  have m: "minute f = minute g"
    using secs_split(4) [OF assms(1)] secs_split(4) [OF assms(2)] 1 by simp
  have 2: "date_ord f * 24 + hour f = date_ord g * 24 + hour g"
    using secs_split(3) [OF assms(1)] secs_split(3) [OF assms(2)] 1 by simp
  have h: "hour f = hour g"
    using secs_split(6) [OF assms(1)] secs_split(6) [OF assms(2)] 2 by simp
  have "date_ord f = date_ord g"
    using secs_split(5) [OF assms(1)] secs_split(5) [OF assms(2)] 2 by simp
  then have "year f = year g \<and> month f = month g \<and> day f = day g"
    by (rule date_ord_inj [OF assms(1,2)])
  with s m h show ?thesis by simp
qed






section \<open>Alignment and the values of \<open>civil_time\<close>\<close>

lemma mk_fields_eta:
  "mk_fields (year f) (month f) (day f) (hour f) (minute f) (second f) = f"
  by (simp add: mk_fields_def)

lemma mk_fields_eq_iff:
  "mk_fields y m d hh mm ss = f \<longleftrightarrow>
     year f = y \<and> month f = m \<and> day f = d \<and> hour f = hh \<and> minute f = mm \<and> second f = ss"
  by (cases f) (auto simp: mk_fields_def)

lemma align_normalized: "normalized f \<Longrightarrow> normalized (align T f)"
  by (cases T) (auto simp: normalized_def days_per_month_values split: option.splits
      dest: days_per_month_Some)

lemma align_eq_iff:
  "align second_tag v = v"
  "align minute_tag v = v \<longleftrightarrow> second v = 0"
  "align hour_tag v = v \<longleftrightarrow> minute v = 0 \<and> second v = 0"
  "align day_tag v = v \<longleftrightarrow> hour v = 0 \<and> minute v = 0 \<and> second v = 0"
  "align month_tag v = v \<longleftrightarrow> day v = 1 \<and> hour v = 0 \<and> minute v = 0 \<and> second v = 0"
  "align year_tag v = v \<longleftrightarrow>
     month v = 1 \<and> day v = 1 \<and> hour v = 0 \<and> minute v = 0 \<and> second v = 0"
  by (auto simp: mk_fields_eq_iff)

lemma civil_value_align: "normalized f \<Longrightarrow> civil_value T (align T f)"
  unfolding civil_value_def
  by (rule conjI, erule align_normalized) (cases T; simp add: align_eq_iff)

section \<open>Differences, specified\<close>

lemma scale_add_eq: "scale_add v f a = v * f + a"
  by (simp add: scale_add_def algebra_simps)

lemma day_difference_eq:
  "day_difference y1 m1 d1 y2 m2 d2 = ymd_ord y1 m1 d1 - ymd_ord y2 m2 d2"
proof -
  define a where "a = y1 smod 400"
  define b where "b = y2 smod 400"
  define A where "A = y1 sdiv 400"
  define B where "B = y2 sdiv 400"
  define delta where "delta = ymd_ord a m1 d1 - ymd_ord b m2 d2"
  have y1: "y1 = a + 400 * A" using sdiv_smod_id [of 400 y1] by (simp add: a_def A_def)
  have y2: "y2 = b + 400 * B" using sdiv_smod_id [of 400 y2] by (simp add: b_def B_def)
  define c4 where "c4 = 400 * (A - B)"
  have c4: "(y1 - a) - (y2 - b) = c4" using y1 y2 by (simp add: c4_def)
  have c: "(400 * k) sdiv 400 = k" for k :: int by (rule sdiv_mult_cancel) simp
  have r0: "c4 sdiv 400 = A - B" unfolding c4_def by (rule c)
  have "c4 - 800 = 400 * (A - B - 2)" by (simp add: c4_def)
  then have r1: "(c4 - 800) sdiv 400 = A - B - 2" by (simp only: c)
  have "c4 + 800 = 400 * (A - B + 2)" by (simp add: c4_def)
  then have r2: "(c4 + 800) sdiv 400 = A - B + 2" by (simp only: c)
  have "day_difference y1 m1 d1 y2 m2 d2 = (A - B) * 146097 + delta"
    unfolding day_difference_def Let_def a_def [symmetric] b_def [symmetric] c4
      delta_def [symmetric]
    by (simp add: r0 r1 r2)
  also have "\<dots> = ymd_ord (a + 400 * A) m1 d1 - ymd_ord (b + 400 * B) m2 d2"
    by (simp add: ymd_ord_add_400 delta_def)
  finally show ?thesis using y1 y2 by simp
qed

lemma difference_eq: "difference T f1 f2 = unit_index T f1 - unit_index T f2"
  by (cases T)
    (simp_all add: scale_add_eq day_difference_eq date_ord_def secs_def month_index_def
      algebra_simps)

section \<open>Stepping, specified\<close>

lemma civil_value_normalized: "civil_value T v \<Longrightarrow> normalized v"
  by (simp add: civil_value_def)

lemma normalized_raw_ord:
  "normalized v \<Longrightarrow> raw_ord (year v) (month v) d = ymd_ord (year v) (month v) d"
  by (rule raw_ord_month) (simp_all add: normalized_def)

lemma step_second_spec:
  assumes "normalized v"
  shows "\<exists>f. step second_tag v n = Some f \<and> normalized f \<and> secs f = secs v + n"
proof -
  obtain f where f: "step second_tag v n = Some f" "normalized f"
    "secs f = raw_secs (year v) (month v) (day v) (hour v) (minute v + n sdiv 60)
       (second v + n smod 60)"
    using n_sec_spec [of "year v" "month v" "day v" "hour v" "minute v + n sdiv 60"
        "second v + n smod 60"]
    by auto
  have "raw_secs (year v) (month v) (day v) (hour v) (minute v + n sdiv 60)
       (second v + n smod 60) = secs v + (60 * (n sdiv 60) + n smod 60)"
    by (simp add: raw_secs_def secs_def date_ord_def normalized_raw_ord [OF assms] algebra_simps)
  then have "secs f = secs v + n" using f(3) by (simp only: sdiv_smod_id)
  with f show ?thesis by simp
qed

lemma step_minute_spec:
  assumes "normalized v"
  shows "\<exists>f. step minute_tag v n = Some f \<and> normalized f \<and> second f = second v \<and>
           unit_index minute_tag f = unit_index minute_tag v + n"
proof -
  from assms have s: "0 \<le> second v" "second v \<le> 59" by (simp_all add: normalized_def)
  obtain f where f: "step minute_tag v n = Some f" "normalized f" "second f = second v"
    "(date_ord f * 24 + hour f) * 60 + minute f =
       (raw_ord (year v) (month v) (day v) * 24 + (hour v + n sdiv 60) + 0) * 60 +
       (minute v + n smod 60)"
    using n_min_spec [OF s, of "year v" "month v" "day v" "hour v + n sdiv 60" 0
        "minute v + n smod 60"]
    by auto
  have "(raw_ord (year v) (month v) (day v) * 24 + (hour v + n sdiv 60) + 0) * 60 +
       (minute v + n smod 60) =
      (date_ord v * 24 + hour v) * 60 + minute v + (60 * (n sdiv 60) + n smod 60)"
    by (simp add: date_ord_def normalized_raw_ord [OF assms] algebra_simps)
  then have "unit_index minute_tag f = unit_index minute_tag v + n"
    using f(4) by (simp only: sdiv_smod_id unit_index.simps)
  with f show ?thesis by simp
qed

lemma step_hour_spec:
  assumes "normalized v"
  shows "\<exists>f. step hour_tag v n = Some f \<and> normalized f \<and>
           minute f = minute v \<and> second f = second v \<and>
           unit_index hour_tag f = unit_index hour_tag v + n"
proof -
  from assms have s: "0 \<le> minute v" "minute v \<le> 59" "0 \<le> second v" "second v \<le> 59"
    by (simp_all add: normalized_def)
  obtain f where f: "step hour_tag v n = Some f" "normalized f"
    "minute f = minute v" "second f = second v"
    "date_ord f * 24 + hour f =
       (raw_ord (year v) (month v) (day v + n sdiv 24) + 0) * 24 + (hour v + n smod 24)"
    using n_hour_spec [OF s, of "year v" "month v" "day v + n sdiv 24" 0 "hour v + n smod 24"]
    by auto
  have "(raw_ord (year v) (month v) (day v + n sdiv 24) + 0) * 24 + (hour v + n smod 24) =
      date_ord v * 24 + hour v + (24 * (n sdiv 24) + n smod 24)"
    by (simp add: date_ord_def raw_ord_day normalized_raw_ord [OF assms] algebra_simps)
  then have "unit_index hour_tag f = unit_index hour_tag v + n"
    using f(5) by (simp only: sdiv_smod_id unit_index.simps)
  with f show ?thesis by simp
qed

lemma step_day_spec:
  assumes "normalized v"
  shows "\<exists>f. step day_tag v n = Some f \<and> normalized f \<and>
           hour f = hour v \<and> minute f = minute v \<and> second f = second v \<and>
           unit_index day_tag f = unit_index day_tag v + n"
proof -
  from assms have s: "1 \<le> month v" "month v \<le> 12" "0 \<le> hour v" "hour v \<le> 23"
    "0 \<le> minute v" "minute v \<le> 59" "0 \<le> second v" "second v \<le> 59"
    by (simp_all add: normalized_def)
  from n_day_spec [OF s, of "year v" "day v" n] show ?thesis
    by (auto simp: date_ord_def)
qed

lemma step_month_spec:
  assumes "civil_value month_tag v"
  shows "\<exists>f. step month_tag v n = Some f \<and> civil_value month_tag f \<and>
           unit_index month_tag f = unit_index month_tag v + n"
proof -
  from assms have v: "normalized v" "day v = 1" "hour v = 0" "minute v = 0" "second v = 0"
    by (simp_all add: civil_value_def mk_fields_eq_iff)
  define y' where "y' = year v + n sdiv 12"
  define m' where "m' = month v + n smod 12"
  have z: "(0::int) \<le> 0" "(0::int) \<le> 23" "(0::int) \<le> 59" by simp_all
  obtain f where f: "n_mon y' m' 1 0 0 0 0 = Some f" "normalized f"
    "hour f = 0" "minute f = 0" "second f = 0" "date_ord f = raw_ord y' m' 1 + 0"
    using n_mon_spec [OF z(1,2) z(1,3) z(1,3), of y' m' 1 0] by auto
  define g where "g = mk_fields (y' + (m' - 1) div 12) ((m' - 1) mod 12 + 1) 1 0 0 0"
  have mg: "1 \<le> (m' - 1) mod 12 + 1" "(m' - 1) mod 12 + 1 \<le> 12"
    using mod_range [of 12 "m' - 1"] by simp_all
  obtain k where "days_per_month (y' + (m' - 1) div 12) ((m' - 1) mod 12 + 1) = Some k" "28 \<le> k"
    using days_per_month_ex [OF mg] by blast
  then have ng: "normalized g"
    using mg by (simp add: normalized_def g_def)
  have "date_ord g = raw_ord y' m' 1"
    by (simp add: date_ord_def g_def raw_ord_def)
  then have "date_ord f = date_ord g" using f(6) by simp
  then have e: "year f = year g \<and> month f = month g \<and> day f = day g"
    by (rule date_ord_inj [OF f(2) ng])
  then have "day f = 1" by (simp add: g_def)
  then have cv: "civil_value month_tag f"
    using f by (simp add: civil_value_def mk_fields_eq_iff)
  have "month_index f = 12 * y' + (12 * ((m' - 1) div 12) + (m' - 1) mod 12) + 1"
    using e by (simp add: month_index_def g_def)
  also have "\<dots> = 12 * y' + m'"
    by simp
  also have "\<dots> = month_index v + (12 * (n sdiv 12) + n smod 12)"
    by (simp add: y'_def m'_def month_index_def)
  finally have "month_index f = month_index v + n"
    by (simp only: sdiv_smod_id)
  moreover have "step month_tag v n = Some f"
    using f(1) v by (simp add: y'_def m'_def)
  ultimately show ?thesis using cv by simp
qed

lemma step_year_spec:
  assumes "civil_value year_tag v"
  shows "\<exists>f. step year_tag v n = Some f \<and> civil_value year_tag f \<and>
           unit_index year_tag f = unit_index year_tag v + n"
proof -
  from assms have v: "month v = 1" "day v = 1" "hour v = 0" "minute v = 0" "second v = 0"
    by (simp_all add: civil_value_def mk_fields_eq_iff)
  define f where "f = mk_fields (year v + n) 1 1 0 0 0"
  have "step year_tag v n = Some f" using v by (simp add: f_def)
  moreover have "civil_value year_tag f"
    by (simp add: f_def civil_value_def mk_fields_eq_iff normalized_def days_per_month_values)
  moreover have "unit_index year_tag f = unit_index year_tag v + n"
    by (simp add: f_def)
  ultimately show ?thesis by blast
qed

lemma step_spec:
  assumes "civil_value T v"
  shows "\<exists>f. step T v n = Some f \<and> civil_value T f \<and> unit_index T f = unit_index T v + n"
proof (cases T)
  case second_tag
  then show ?thesis
    using assms step_second_spec [of v n] by (auto simp: civil_value_def)
next
  case minute_tag
  then show ?thesis
    using assms step_minute_spec [of v n] by (auto simp: civil_value_def mk_fields_eq_iff)
next
  case hour_tag
  then show ?thesis
    using assms step_hour_spec [of v n] by (auto simp: civil_value_def mk_fields_eq_iff)
next
  case day_tag
  then show ?thesis
    using assms step_day_spec [of v n] by (auto simp: civil_value_def mk_fields_eq_iff)
next
  case month_tag
  then show ?thesis using assms step_month_spec [of v n] by simp
next
  case year_tag
  then show ?thesis using assms step_year_spec [of v n] by simp
qed

lemma unit_index_secs:
  "civil_value second_tag v \<Longrightarrow> secs v = unit_index second_tag v"
  "civil_value minute_tag v \<Longrightarrow> secs v = unit_index minute_tag v * 60"
  "civil_value hour_tag v \<Longrightarrow> secs v = unit_index hour_tag v * 3600"
  "civil_value day_tag v \<Longrightarrow> secs v = unit_index day_tag v * 86400"
  by (simp_all add: civil_value_def mk_fields_eq_iff secs_def)

lemma unit_index_inj:
  assumes "civil_value T a" "civil_value T b" "unit_index T a = unit_index T b"
  shows "a = b"
proof -
  have n: "normalized a" "normalized b"
    using assms(1,2) by (simp_all add: civil_value_def)
  consider "T = second_tag \<or> T = minute_tag \<or> T = hour_tag \<or> T = day_tag"
    | "T = month_tag" | "T = year_tag"
    by (cases T) auto
  then show ?thesis
  proof cases
    case 1
    then have "secs a = secs b"
      using assms unit_index_secs [of a] unit_index_secs [of b] by auto
    then show ?thesis by (rule secs_inj [OF n])
  next
    case 2
    then have "month_index a = month_index b" using assms(3) by simp
    then have "year a = year b" "month a = month b"
      by (rule month_index_inj [OF n])+
    then show ?thesis
      using assms(1,2) 2 by (simp add: civil_value_def mk_fields_eq_iff)
  next
    case 3
    then show ?thesis
      using assms by (simp add: civil_value_def mk_fields_eq_iff)
  qed
qed

section \<open>The arithmetic operators, specified\<close>

lemma civil_time_id: "civil_value T f \<Longrightarrow> civil_time T f = f"
  by (simp add: civil_value_def civil_time_def)

lemma civil_plus_spec:
  assumes "civil_value T v"
  shows "\<exists>w. civil_plus T v n = Some w \<and> civil_value T w \<and> unit_index T w = unit_index T v + n"
  using step_spec [OF assms, of n] by (auto simp: civil_plus_def civil_time_id)

lemma civil_minus_spec:
  assumes "civil_value T v"
  shows "\<exists>w. civil_minus T v n = Some w \<and> civil_value T w \<and> unit_index T w = unit_index T v - n"
proof (cases "n \<noteq> int64_min")
  case True
  then show ?thesis
    using step_spec [OF assms, of "- n"] by (auto simp: civil_minus_def civil_time_id)
next
  case False
  obtain f where f: "step T v (- (n + 1)) = Some f" "civil_value T f"
    "unit_index T f = unit_index T v + (- (n + 1))"
    using step_spec [OF assms, of "- (n + 1)"] by blast
  obtain g where g: "step T f 1 = Some g" "civil_value T g"
    "unit_index T g = unit_index T f + 1"
    using step_spec [OF f(2), of 1] by blast
  from False f g show ?thesis
    by (simp add: civil_minus_def civil_time_id)
qed

lemma make_spec:
  "\<exists>v. make T y m d hh mm ss = Some v \<and> civil_value T v"
  using n_sec_spec [of y m d hh mm ss] by (auto simp: make_def civil_time_def civil_value_align)

lemma civil_value_reachable:
  assumes "civil_value T v"
  shows "make T (year v) (month v) (day v) (hour v) (minute v) (second v) = Some v"
proof -
  have n: "normalized v" using assms by (simp add: civil_value_def)
  obtain f where f: "n_sec (year v) (month v) (day v) (hour v) (minute v) (second v) = Some f"
    "normalized f"
    "secs f = raw_secs (year v) (month v) (day v) (hour v) (minute v) (second v)"
    using n_sec_spec by blast
  have "secs f = secs v"
    unfolding f(3) by (simp add: raw_secs_def secs_def date_ord_def normalized_raw_ord [OF n])
  then have "f = v" by (rule secs_inj [OF f(2) n])
  then show ?thesis using f(1) assms by (simp add: make_def civil_time_id)
qed

lemma civil_eq_iff: "civil_eq a b \<longleftrightarrow> a = b"
  unfolding civil_eq_def by (cases a; cases b) auto

section \<open>Weekdays, specified\<close>






lemma weekday_gap: "(weekday_number a - weekday_number a - 1) mod 7 = 6"
  by simp




lemma plus_difference_exact:
  assumes "civil_value T a" "civil_value T b"
  shows "\<exists>w. civil_plus T b (difference T a b) = Some w \<and> civil_eq w a"
proof -
  obtain w where w: "civil_plus T b (difference T a b) = Some w" "civil_value T w"
    "unit_index T w = unit_index T b + difference T a b"
    using civil_plus_spec [OF assms(2), of "difference T a b"] by blast
  have "unit_index T w = unit_index T a" using w(3) by (simp add: difference_eq)
  then have "w = a" by (rule unit_index_inj [OF w(2) assms(1)])
  then show ?thesis using w(1) by (simp add: civil_eq_iff)
qed


section \<open>The operations on 64-bit integers, specified\<close>

text \<open>
  Within the 64-bit range the operations on 64-bit integers agree with the ones on
  unbounded integers; out of it, the cascade returns the same fields with the year wrapped.
\<close>

lemma in_int64_iff:
  "in_int64 x \<longleftrightarrow> - 9223372036854775808 \<le> x \<and> x \<le> 9223372036854775807"
  by (simp add: in_int64_def int64_min_def int64_max_def)

lemma wrap64_id: "in_int64 x \<Longrightarrow> wrap64 x = x"
  unfolding wrap64_def in_int64_iff by (simp add: mod_pos_pos_trivial)

lemma wrap_year_id: "in_int64 (year f) \<Longrightarrow> wrap_year f = f"
  by (simp add: wrap_year_def wrap64_id mk_fields_eta)

lemma n_day64_alt:
  "n_day64 y m d cd hh mm ss = map_option wrap_year (n_day y m d cd hh mm ss)"
  by (cases "n_day_run y m d cd")
    (auto simp: n_day64_def n_day_def wrap_year_def Let_def)

lemma n_mon64_alt:
  assumes "mon_fits y m"
  shows "n_mon64 y m d cd hh mm ss = map_option wrap_year (n_mon y m d cd hh mm ss)"
proof (cases "m = 12")
  case True
  then show ?thesis by (simp add: n_mon64_def n_mon_def n_day64_alt)
next
  case False
  with assms have 1: "wrap64 (y + m sdiv 12) = y + m sdiv 12"
    by (simp add: mon_fits_def wrap64_id)
  show ?thesis
  proof (cases "m smod 12 \<le> 0")
    case True
    with assms False have "wrap64 (y + m sdiv 12 - 1) = y + m sdiv 12 - 1"
      by (simp add: mon_fits_def wrap64_id)
    with True False 1 show ?thesis
      by (simp add: n_mon64_def n_mon_def n_day64_alt Let_def)
  next
    case nd: False
    with False 1 show ?thesis
      by (simp add: n_mon64_def n_mon_def n_day64_alt Let_def)
  qed
qed

lemma n_hour64_alt:
  assumes "mon_fits y m"
  shows "n_hour64 y m d cd hh mm ss = map_option wrap_year (n_hour y m d cd hh mm ss)"
  by (simp add: n_hour64_def n_hour_def n_mon64_alt [OF assms] Let_def split: prod.splits)

lemma n_min64_alt:
  assumes "mon_fits y m"
  shows "n_min64 y m d hh ch mm ss = map_option wrap_year (n_min y m d hh ch mm ss)"
  by (simp add: n_min64_def n_min_def n_hour64_alt [OF assms] Let_def split: prod.splits)

lemma n_sec64_alt:
  assumes "mon_fits y m" "in_int64 y"
  shows "n_sec64 y m d hh mm ss = map_option wrap_year (n_sec y m d hh mm ss)"
  using assms(2)
  by (simp add: n_sec64_def n_sec_def n_min64_alt [OF assms(1)] n_hour64_alt [OF assms(1)]
      n_mon64_alt [OF assms(1)] Let_def wrap_year_def wrap64_id split: prod.splits)

lemma mon_fits_month:
  assumes "1 \<le> m" "m \<le> 12" "in_int64 y"
  shows "mon_fits y m"
proof (cases "m = 12")
  case True
  then show ?thesis by (simp add: mon_fits_def)
next
  case False
  have "m = 12 * 0 + m" by simp
  moreover have "0 \<le> m" "m < 12" using assms False by simp_all
  ultimately have "m div 12 = 0" "m mod 12 = m" by (rule divmod_unique)+
  then have "m sdiv 12 = 0" "m smod 12 = m"
    using assms(1) by (simp_all add: sdiv_nonneg smod_nonneg)
  then show ?thesis using assms by (simp add: mon_fits_def)
qed

lemma step64_alt:
  assumes "normalized v" "in_int64 (year v)" "T \<noteq> month_tag" "T \<noteq> year_tag"
  shows "step64 T v n = map_option wrap_year (step T v n)"
proof -
  have "1 \<le> month v" "month v \<le> 12" using assms(1) by (simp_all add: normalized_def)
  then have mf: "mon_fits (year v) (month v)" using assms(2) by (rule mon_fits_month)
  show ?thesis
    using assms(3,4)
    by (cases T)
      (simp_all add: n_sec64_alt [OF mf assms(2)] n_min64_alt [OF mf] n_hour64_alt [OF mf]
        n_day64_alt)
qed

lemma in_int64_between:
  assumes "in_int64 a" "in_int64 b" "a \<le> x" "x \<le> b"
  shows "in_int64 x"
  using assms by (simp add: in_int64_def)

lemma trunc_sign:
  fixes a b :: int
  assumes "0 < b"
  shows "0 \<le> a \<Longrightarrow> 0 \<le> a sdiv b \<and> 0 \<le> a smod b \<and> a smod b < b"
    and "a \<le> 0 \<Longrightarrow> a sdiv b \<le> 0 \<and> - b < a smod b \<and> a smod b \<le> 0"
proof -
  assume "0 \<le> a"
  then show "0 \<le> a sdiv b \<and> 0 \<le> a smod b \<and> a smod b < b"
    using assms mod_range [of b a] by (simp add: sdiv_nonneg smod_nonneg pos_imp_zdiv_nonneg_iff)
next
  assume a: "a \<le> 0"
  have 1: "a div b < 0" if "a < 0" using that assms by (rule div_neg_pos_less0)
  have 2: "a div b \<le> 0"
  proof (cases "a < 0")
    case True
    then show ?thesis using 1 by simp
  next
    case False
    then have "a = 0" using a by simp
    then show ?thesis by simp
  qed
  show "a sdiv b \<le> 0 \<and> - b < a smod b \<and> a smod b \<le> 0"
    using 1 2 a assms mod_range [of b a] by (auto simp: sdiv_floor smod_floor)
qed

lemma trunc_small:
  fixes a b :: int
  assumes "- b < a" "a < b"
  shows "a sdiv b = 0" "a smod b = a"
proof -
  have b: "0 < b" using assms by simp
  have "\<bar>a\<bar> < \<bar>b\<bar>" using assms by simp
  then have "\<bar>a\<bar> div \<bar>b\<bar> = 0" "\<bar>a\<bar> mod \<bar>b\<bar> = \<bar>a\<bar>"
    by (simp_all add: div_pos_pos_trivial mod_pos_pos_trivial)
  then show "a sdiv b = 0" "a smod b = a"
    by (simp_all add: signed_divide_int_def signed_modulo_int_def sgn_if)
qed

lemma step64_month_eq:
  assumes "civil_value month_tag v" "in_int64 (year v)"
    "step month_tag v n = Some f" "in_int64 (year f)"
  shows "step64 month_tag v n = Some f"
proof -
  from assms(1) have v: "1 \<le> month v" "month v \<le> 12"
    by (simp_all add: civil_value_def normalized_def)
  obtain f' where f': "step month_tag v n = Some f'" "civil_value month_tag f'"
    "unit_index month_tag f' = unit_index month_tag v + n"
    using step_month_spec [OF assms(1), of n] by blast
  then have ff: "f' = f" using assms(3) by simp
  have fm: "1 \<le> month f" "month f \<le> 12"
    using f'(2) ff by (simp_all add: civil_value_def normalized_def)
  define q where "q = n sdiv 12"
  define r where "r = n smod 12"
  define Y0 where "Y0 = year v + q"
  define m' where "m' = month v + r"
  have n: "12 * q + r = n" unfolding q_def r_def by (rule sdiv_smod_id)
  have idx: "12 * year f + month f = 12 * Y0 + m'"
    using f'(3) ff n by (simp add: month_index_def Y0_def m'_def)
  have fits: "in_int64 Y0 \<and> mon_fits Y0 m'"
  proof (cases "0 \<le> n")
    case True
    then have s: "0 \<le> q" "0 \<le> r" "r < 12"
      using trunc_sign(1) [of 12 n] by (simp_all add: q_def r_def)
    have m: "1 \<le> m'" "m' \<le> 23" using v s by (simp_all add: m'_def)
    have k: "year f = Y0 \<or> year f = Y0 + 1" using idx fm m by presburger
    have "year v \<le> Y0" "Y0 \<le> year f" using s k by (auto simp: Y0_def)
    then have y0: "in_int64 Y0" by (rule in_int64_between [OF assms(2,4)])
    have "mon_fits Y0 m'"
    proof (cases "m' \<le> 11")
      case True
      then have "m' sdiv 12 = 0" "m' smod 12 = m'"
        using m trunc_small [of 12 m'] by simp_all
      then show ?thesis using y0 m by (simp add: mon_fits_def)
    next
      case False
      show ?thesis
      proof (cases "m' = 12")
        case True
        then show ?thesis by (simp add: mon_fits_def)
      next
        case ne: False
        have "m' = 12 * 1 + (m' - 12)" by simp
        moreover have "0 \<le> m' - 12" "m' - 12 < 12" using False m by simp_all
        ultimately have "m' div 12 = 1" "m' mod 12 = m' - 12" by (rule divmod_unique)+
        then have t: "m' sdiv 12 = 1" "m' smod 12 = m' - 12"
          using m by (simp_all add: sdiv_nonneg smod_nonneg)
        have "year f = Y0 + 1" using idx fm False ne k by presburger
        then show ?thesis using t assms(4) False ne by (simp add: mon_fits_def)
      qed
    qed
    with y0 show ?thesis by simp
  next
    case False
    then have s: "q \<le> 0" "- 12 < r" "r \<le> 0"
      using trunc_sign(2) [of 12 n] by (simp_all add: q_def r_def)
    have m: "- 10 \<le> m'" "m' \<le> 12" using v s by (simp_all add: m'_def)
    have k: "year f = Y0 \<or> year f = Y0 - 1" using idx fm m by presburger
    have "year f \<le> Y0" "Y0 \<le> year v" using s k by (auto simp: Y0_def)
    then have y0: "in_int64 Y0" by (rule in_int64_between [OF assms(4,2)])
    have "mon_fits Y0 m'"
    proof (cases "m' = 12")
      case True
      then show ?thesis by (simp add: mon_fits_def)
    next
      case ne: False
      then have t: "m' sdiv 12 = 0" "m' smod 12 = m'"
        using m trunc_small [of 12 m'] by simp_all
      have "year f = Y0 - 1" if "m' \<le> 0" using that idx fm k by presburger
      then show ?thesis using t y0 assms(4) by (auto simp: mon_fits_def)
    qed
    with y0 show ?thesis by simp
  qed
  have "step64 month_tag v n = n_mon64 Y0 m' (day v) 0 (hour v) (minute v) (second v)"
    using fits by (simp add: Y0_def m'_def q_def r_def wrap64_id)
  also have "\<dots> = map_option wrap_year (n_mon Y0 m' (day v) 0 (hour v) (minute v) (second v))"
    using fits by (simp add: n_mon64_alt)
  also have "\<dots> = map_option wrap_year (step month_tag v n)"
    by (simp add: Y0_def m'_def q_def r_def)
  finally show ?thesis using assms(3,4) by (simp add: wrap_year_id)
qed

lemma step64_eq:
  assumes "civil_value T v" "in_int64 (year v)" "step T v n = Some f" "in_int64 (year f)"
  shows "step64 T v n = Some f"
proof -
  have nv: "normalized v" using assms(1) by (simp add: civil_value_def)
  consider "T = month_tag" | "T = year_tag" | "T \<noteq> month_tag" "T \<noteq> year_tag" by blast
  then show ?thesis
  proof cases
    case 1
    then show ?thesis using step64_month_eq [of v n f] assms by simp
  next
    case 2
    then show ?thesis using assms(3,4) by (auto simp: wrap64_id)
  next
    case 3
    then show ?thesis
      using step64_alt [OF nv assms(2) 3, of n] assms(3,4) by (simp add: wrap_year_id)
  qed
qed

lemma civil_plus64_eq:
  assumes "civil_value T v" "in_int64 (year v)" "civil_plus T v n = Some w" "in_int64 (year w)"
  shows "civil_plus64 T v n = Some w"
proof -
  obtain f where f: "step T v n = Some f" "civil_value T f"
    using step_spec [OF assms(1), of n] by blast
  then have "w = f" using assms(3) by (simp add: civil_plus_def civil_time_id)
  then show ?thesis
    using step64_eq [OF assms(1,2) f(1)] assms(4) f(2)
    by (simp add: civil_plus64_def civil_time_id)
qed


lemma scale_add64_eq:
  assumes "f = 12 \<or> f = 24 \<or> f = 60" "- f < a" "a < f" "in_int64 (v * f + a)"
  shows "scale_add64 v f a = v * f + a" "in_int64 v"
proof -
  have "in_int64 v \<and> in_int64 (v + 1) \<and> in_int64 (v - 1) \<and>
        (v < 0 \<longrightarrow> in_int64 ((v + 1) * f) \<and> in_int64 ((v + 1) * f + a) \<and>
           in_int64 ((v + 1) * f + a - f)) \<and>
        (\<not> v < 0 \<longrightarrow> in_int64 ((v - 1) * f) \<and> in_int64 ((v - 1) * f + a) \<and>
           in_int64 ((v - 1) * f + a + f))"
    using assms unfolding in_int64_iff by (elim disjE) (simp_all add: algebra_simps)
  then show "scale_add64 v f a = v * f + a" "in_int64 v"
    by (simp_all add: scale_add64_def wrap64_id algebra_simps)
qed

lemma smod400_bounds:
  fixes y :: int
  shows "0 \<le> y \<Longrightarrow> 0 \<le> y smod 400 \<and> y smod 400 \<le> y"
    and "y \<le> 0 \<Longrightarrow> y \<le> y smod 400 \<and> y smod 400 \<le> 0"
  using trunc_sign [of 400 y] sdiv_smod_id [of 400 y] by auto

lemma offset_date_bounds:
  assumes "normalized f"
  shows "- 865259 \<le> ymd_ord (year f smod 400) (month f) (day f)"
    "ymd_ord (year f smod 400) (month f) (day f) < - 573431"
proof -
  define g where "g = mk_fields (year f smod 400) (month f) (day f) (hour f) (minute f) (second f)"
  have "year f smod 400 + 400 * (year f sdiv 400) = year f"
    using sdiv_smod_id [of 400 "year f"] by simp
  then have "days_per_month (year f smod 400) (month f) = days_per_month (year f) (month f)"
    using days_per_month_add_400 [of "year f smod 400" "year f sdiv 400" "month f"] by simp
  then have g: "normalized g"
    using assms by (auto simp: normalized_def g_def split: option.splits)
  have m: "1 \<le> month f" "month f \<le> 12" using assms by (simp_all add: normalized_def)
  have s: "- 400 < year f smod 400" "year f smod 400 < 400"
    using smod_range [of 400 "year f"] by simp_all
  have mi: "- 4787 \<le> month_index g" "month_index g + 1 \<le> 4801"
    using m s by (simp_all add: month_index_def g_def)
  have lo: "raw_ord 0 (- 4787) 1 = - 865259" and hi: "raw_ord 0 4801 1 = - 573431"
    by code_simp+
  have "raw_ord 0 (- 4787) 1 \<le> raw_ord 0 (month_index g) 1"
    using mi(1) by (rule raw_ord_mono)
  also have "\<dots> \<le> date_ord g" by (rule date_ord_bounds(1) [OF g])
  finally show "- 865259 \<le> ymd_ord (year f smod 400) (month f) (day f)"
    by (simp add: lo date_ord_def g_def)
  have "date_ord g < raw_ord 0 (month_index g + 1) 1" by (rule date_ord_bounds(2) [OF g])
  also have "\<dots> \<le> raw_ord 0 4801 1" using mi(2) by (rule raw_ord_mono)
  finally show "ymd_ord (year f smod 400) (month f) (day f) < - 573431"
    by (simp add: hi date_ord_def g_def)
qed

lemma day_difference64_eq:
  assumes "normalized f1" "normalized f2" "in_int64 (year f1)" "in_int64 (year f2)"
    "in_int64 (date_ord f1 - date_ord f2)"
  shows "day_difference64 (year f1) (month f1) (day f1) (year f2) (month f2) (day f2) =
           date_ord f1 - date_ord f2"
proof -
  define a where "a = year f1 smod 400"
  define b where "b = year f2 smod 400"
  define A where "A = year f1 sdiv 400"
  define B where "B = year f2 sdiv 400"
  define e1 where "e1 = ymd_ord a (month f1) (day f1)"
  define e2 where "e2 = ymd_ord b (month f2) (day f2)"
  define delta where "delta = e1 - e2"
  define K where "K = A - B"
  define R where "R = date_ord f1 - date_ord f2"
  have y1: "year f1 = a + 400 * A"
    using sdiv_smod_id [of 400 "year f1"] by (simp add: a_def A_def)
  have y2: "year f2 = b + 400 * B"
    using sdiv_smod_id [of 400 "year f2"] by (simp add: b_def B_def)
  have e: "- 865259 \<le> e1" "e1 < - 573431" "- 865259 \<le> e2" "e2 < - 573431"
    using offset_date_bounds [OF assms(1)] offset_date_bounds [OF assms(2)]
    by (simp_all add: e1_def e2_def a_def b_def)
  then have d: "- 291828 < delta" "delta < 291828" by (simp_all add: delta_def)
  have "date_ord f1 = e1 + 146097 * A" "date_ord f2 = e2 + 146097 * B"
    unfolding date_ord_def e1_def e2_def by (simp_all add: y1 y2 ymd_ord_add_400)
  then have R: "R = 146097 * K + delta" by (simp add: R_def K_def delta_def algebra_simps)
  have Ri: "- 9223372036854775808 \<le> R" "R \<le> 9223372036854775807"
    using assms(5) by (simp_all add: R_def in_int64_iff)
  have "in_int64 (year f1 - a)"
  proof (cases "0 \<le> year f1")
    case True
    then have "0 \<le> year f1 - a" "year f1 - a \<le> year f1"
      using smod400_bounds(1) [of "year f1"] by (simp_all add: a_def)
    then show ?thesis using assms(3) by (simp add: in_int64_iff)
  next
    case False
    then have "year f1 \<le> year f1 - a" "year f1 - a \<le> 0"
      using smod400_bounds(2) [of "year f1"] by (simp_all add: a_def)
    then show ?thesis using assms(3) by (simp add: in_int64_iff)
  qed
  then have w1: "wrap64 (year f1 - a) = 400 * A" using y1 by (simp add: wrap64_id)
  have "in_int64 (year f2 - b)"
  proof (cases "0 \<le> year f2")
    case True
    then have "0 \<le> year f2 - b" "year f2 - b \<le> year f2"
      using smod400_bounds(1) [of "year f2"] by (simp_all add: b_def)
    then show ?thesis using assms(4) by (simp add: in_int64_iff)
  next
    case False
    then have "year f2 \<le> year f2 - b" "year f2 - b \<le> 0"
      using smod400_bounds(2) [of "year f2"] by (simp_all add: b_def)
    then show ?thesis using assms(4) by (simp add: in_int64_iff)
  qed
  then have w2: "wrap64 (year f2 - b) = 400 * B" using y2 by (simp add: wrap64_id)
  have Kb: "- 63132466969279 < K" "K < 63132466969279"
    using R Ri d by linarith+
  have c4: "wrap64 (400 * A - 400 * B) = 400 * K"
    using Kb by (simp add: K_def wrap64_id in_int64_iff)
  have c: "(400 * k) sdiv 400 = k" for k :: int by (rule sdiv_mult_cancel) simp
  have unf: "day_difference64 (year f1) (month f1) (day f1) (year f2) (month f2) (day f2) =
      (if 400 * K > 0 \<and> delta < 0 then
         wrap64 (wrap64 (wrap64 (400 * K - 800) sdiv 400 * 146097) + (delta + 292194))
       else if 400 * K < 0 \<and> delta > 0 then
         wrap64 (wrap64 (wrap64 (400 * K + 800) sdiv 400 * 146097) + (delta - 292194))
       else wrap64 (wrap64 ((400 * K) sdiv 400 * 146097) + delta))"
    unfolding day_difference64_def Let_def a_def [symmetric] b_def [symmetric] w1 w2 c4
      e1_def [symmetric] e2_def [symmetric] delta_def [symmetric]
    by simp
  have up: "wrap64 (400 * K - 800) sdiv 400 = K - 2"
  proof -
    have "in_int64 (400 * K - 800)" using Kb by (simp add: in_int64_iff)
    then have "wrap64 (400 * K - 800) = 400 * (K - 2)" by (simp add: wrap64_id)
    then show ?thesis by (simp only: c)
  qed
  have down: "wrap64 (400 * K + 800) sdiv 400 = K + 2"
  proof -
    have "in_int64 (400 * K + 800)" using Kb by (simp add: in_int64_iff)
    then have "wrap64 (400 * K + 800) = 400 * (K + 2)" by (simp add: wrap64_id)
    then show ?thesis by (simp only: c)
  qed
  consider (u) "K > 0" "delta < 0" | (d) "K < 0" "delta > 0"
    | (n) "\<not> (K > 0 \<and> delta < 0)" "\<not> (K < 0 \<and> delta > 0)"
    by blast
  then have "day_difference64 (year f1) (month f1) (day f1) (year f2) (month f2) (day f2) = R"
  proof cases
    case u
    have "in_int64 ((K - 2) * 146097)" "in_int64 ((K - 2) * 146097 + (delta + 292194))"
      using u R Ri d by (simp_all add: in_int64_iff algebra_simps)
    then show ?thesis using u R by (simp add: unf up wrap64_id)
  next
    case d
    have "in_int64 ((K + 2) * 146097)" "in_int64 ((K + 2) * 146097 + (delta - 292194))"
      using d R Ri \<open>- 291828 < delta\<close> \<open>delta < 291828\<close>
      by (simp_all add: in_int64_iff algebra_simps)
    then show ?thesis using d R by (simp add: unf down wrap64_id)
  next
    case n
    have "in_int64 (K * 146097)" "in_int64 (K * 146097 + delta)"
      using n R Ri d by (cases "0 < K"; cases "K < 0"; simp add: in_int64_iff)+
    then show ?thesis using n R by (auto simp: unf c wrap64_id)
  qed
  then show ?thesis by (simp add: R_def)
qed

lemma difference64_year_eq:
  assumes "in_int64 (difference year_tag a b)"
  shows "difference64 year_tag a b = difference year_tag a b"
  using assms by (simp add: wrap64_id)

lemma difference64_month_eq:
  assumes "normalized a" "normalized b" "in_int64 (difference month_tag a b)"
  shows "difference64 month_tag a b = difference month_tag a b"
proof -
  have r: "- 12 < month a - month b" "month a - month b < 12"
    using assms(1,2) by (simp_all add: normalized_def)
  have i: "in_int64 ((year a - year b) * 12 + (month a - month b))"
    using assms(3) by (simp add: scale_add_eq)
  have "in_int64 (year a - year b)"
    by (rule scale_add64_eq(2) [OF _ r i]) simp
  then have "difference64 year_tag a b = year a - year b" by (simp add: wrap64_id)
  then show ?thesis
    using scale_add64_eq(1) [OF _ r i] by (simp add: scale_add_eq)
qed

lemma difference64_day_eq:
  assumes "normalized a" "normalized b" "in_int64 (year a)" "in_int64 (year b)"
    "in_int64 (difference day_tag a b)"
  shows "difference64 day_tag a b = difference day_tag a b"
  using day_difference64_eq [OF assms(1-4)] assms(5)
  by (simp add: day_difference_eq date_ord_def)

lemma difference64_hour_eq:
  assumes "normalized a" "normalized b" "in_int64 (year a)" "in_int64 (year b)"
    "in_int64 (difference hour_tag a b)"
  shows "difference64 hour_tag a b = difference hour_tag a b"
proof -
  have r: "- 24 < hour a - hour b" "hour a - hour b < 24"
    using assms(1,2) by (simp_all add: normalized_def)
  have i: "in_int64 (difference day_tag a b * 24 + (hour a - hour b))"
    using assms(5) by (simp add: scale_add_eq)
  have "in_int64 (difference day_tag a b)"
    by (rule scale_add64_eq(2) [OF _ r i]) simp
  then have "difference64 day_tag a b = difference day_tag a b"
    by (rule difference64_day_eq [OF assms(1-4)])
  then show ?thesis
    using scale_add64_eq(1) [OF _ r i] by (simp add: scale_add_eq)
qed

lemma difference64_minute_eq:
  assumes "normalized a" "normalized b" "in_int64 (year a)" "in_int64 (year b)"
    "in_int64 (difference minute_tag a b)"
  shows "difference64 minute_tag a b = difference minute_tag a b"
proof -
  have r: "- 60 < minute a - minute b" "minute a - minute b < 60"
    using assms(1,2) by (simp_all add: normalized_def)
  have i: "in_int64 (difference hour_tag a b * 60 + (minute a - minute b))"
    using assms(5) by (simp add: scale_add_eq)
  have "in_int64 (difference hour_tag a b)"
    by (rule scale_add64_eq(2) [OF _ r i]) simp
  then have "difference64 hour_tag a b = difference hour_tag a b"
    by (rule difference64_hour_eq [OF assms(1-4)])
  then show ?thesis
    using scale_add64_eq(1) [OF _ r i] by (simp add: scale_add_eq)
qed

lemma difference64_second_eq:
  assumes "normalized a" "normalized b" "in_int64 (year a)" "in_int64 (year b)"
    "in_int64 (difference second_tag a b)"
  shows "difference64 second_tag a b = difference second_tag a b"
proof -
  have r: "- 60 < second a - second b" "second a - second b < 60"
    using assms(1,2) by (simp_all add: normalized_def)
  have i: "in_int64 (difference minute_tag a b * 60 + (second a - second b))"
    using assms(5) by (simp add: scale_add_eq)
  have "in_int64 (difference minute_tag a b)"
    by (rule scale_add64_eq(2) [OF _ r i]) simp
  then have "difference64 minute_tag a b = difference minute_tag a b"
    by (rule difference64_minute_eq [OF assms(1-4)])
  then show ?thesis
    using scale_add64_eq(1) [OF _ r i] by (simp add: scale_add_eq)
qed

lemma difference64_eq:
  assumes "normalized a" "normalized b" "in_int64 (year a)" "in_int64 (year b)"
    "in_int64 (difference T a b)"
  shows "difference64 T a b = difference T a b"
proof (cases T)
  case second_tag
  then show ?thesis using difference64_second_eq [OF assms(1-4)] assms(5) by simp
next
  case minute_tag
  then show ?thesis using difference64_minute_eq [OF assms(1-4)] assms(5) by simp
next
  case hour_tag
  then show ?thesis using difference64_hour_eq [OF assms(1-4)] assms(5) by simp
next
  case day_tag
  then show ?thesis using difference64_day_eq [OF assms(1-4)] assms(5) by simp
next
  case month_tag
  then show ?thesis using difference64_month_eq [OF assms(1,2)] assms(5) by simp
next
  case year_tag
  then show ?thesis using difference64_year_eq [of a b] assms(5) by simp
qed





section \<open>The properties of the specification\<close>

text \<open>
  The values of \<^verbatim>\<open>civil_time<T>\<close> are the fields that satisfy \<open>civil_value T\<close>: the
  default constructor, the public constructor, the conversions and the arithmetic
  operators all return such fields, and each of them is returned by the public constructor.
\<close>

lemma civil_default_value: "civil_value T civil_default"
  by (cases T; hypsubst; code_simp)

lemma convert_value: "normalized ct \<Longrightarrow> civil_value T (convert T ct)"
  by (simp add: convert_def civil_time_def civil_value_align)

text \<open>
  C1. Every construction from raw fields, and every step \<open>+ n\<close>, \<open>- n\<close>, \<open>++\<close>, \<open>--\<close> of a
  value of any unit, returns a result, and the fields of the result are canonical:
  1 \<le> month \<le> 12, 1 \<le> day \<le> days-in-month, 0 \<le> hour \<le> 23, 0 \<le> minute \<le> 59 and
  0 \<le> second \<le> 59. The model computes on unbounded integers, so the year never
  overflows.
\<close>

theorem construction_and_steps_canonical:
  "(\<exists>f. n_sec y m d hh mm ss = Some f \<and> normalized f) \<and>
   (\<exists>v. make T y m d hh mm ss = Some v \<and> normalized v) \<and>
   (civil_value T a \<longrightarrow>
      (\<exists>w. civil_plus T a n = Some w \<and> normalized w) \<and>
      (\<exists>w. civil_minus T a n = Some w \<and> normalized w) \<and>
      (\<exists>w. civil_incr T a = Some w \<and> normalized w) \<and>
      (\<exists>w. civil_decr T a = Some w \<and> normalized w))"
proof (intro conjI impI)
  show "\<exists>f. n_sec y m d hh mm ss = Some f \<and> normalized f"
    using n_sec_spec [of y m d hh mm ss] by blast
  show "\<exists>v. make T y m d hh mm ss = Some v \<and> normalized v"
    using make_spec [of T y m d hh mm ss] by (auto simp: civil_value_def)
next
  assume a: "civil_value T a"
  show "\<exists>w. civil_plus T a n = Some w \<and> normalized w"
    using civil_plus_spec [OF a, of n] by (auto simp: civil_value_def)
  show "\<exists>w. civil_minus T a n = Some w \<and> normalized w"
    using civil_minus_spec [OF a, of n] by (auto simp: civil_value_def)
  show "\<exists>w. civil_incr T a = Some w \<and> normalized w"
    using civil_plus_spec [OF a, of 1] by (auto simp: civil_value_def civil_incr_def)
  show "\<exists>w. civil_decr T a = Some w \<and> normalized w"
    using civil_minus_spec [OF a, of 1] by (auto simp: civil_value_def civil_decr_def)
qed

theorem construction_and_steps_canonical_witness:
  "civil_value month_tag (mk_fields 2016 12 1 0 0 0) \<and>
   (\<exists>v. make month_tag 2016 14 40 (- 5) 70 (- 1) = Some v \<and> normalized v) \<and>
   (\<exists>w. civil_plus month_tag (mk_fields 2016 12 1 0 0 0) 14 = Some w \<and> normalized w) \<and>
   (\<exists>w. civil_minus month_tag (mk_fields 2016 12 1 0 0 0) 14 = Some w \<and> normalized w) \<and>
   (\<exists>w. civil_incr month_tag (mk_fields 2016 12 1 0 0 0) = Some w \<and> normalized w) \<and>
   (\<exists>w. civil_decr month_tag (mk_fields 2016 12 1 0 0 0) = Some w \<and> normalized w)"
proof -
  have h: "civil_value month_tag (mk_fields 2016 12 1 0 0 0)"
    by code_simp
  show ?thesis
    using h construction_and_steps_canonical
      [of 2016 14 40 "- 5" 70 "- 1" month_tag "mk_fields 2016 12 1 0 0 0" 14]
    by blast
qed

text \<open>
  C2. For a value \<open>v\<close> of any unit and a count \<open>n\<close> of the signed 64-bit range (its minimum
  included), \<open>(v + n) - n == v\<close> and \<open>(v + n) - v == n\<close>, the second subtraction being the
  difference of two values of the same unit.
\<close>

theorem plus_minus_roundtrip:
  assumes "civil_value T v" "int64_min \<le> n" "n \<le> int64_max"
  shows "\<exists>w u. civil_plus T v n = Some w \<and> civil_minus T w n = Some u \<and> civil_eq u v \<and>
           civil_diff T w v = n"
proof -
  obtain w where w: "civil_plus T v n = Some w" "civil_value T w"
    "unit_index T w = unit_index T v + n"
    using civil_plus_spec [OF assms(1), of n] by blast
  obtain u where u: "civil_minus T w n = Some u" "civil_value T u"
    "unit_index T u = unit_index T w - n"
    using civil_minus_spec [OF w(2), of n] by blast
  have "unit_index T u = unit_index T v" using u(3) w(3) by simp
  then have "u = v" by (rule unit_index_inj [OF u(2) assms(1)])
  moreover have "civil_diff T w v = n"
    using w(3) by (simp add: civil_diff_def difference_eq)
  ultimately show ?thesis using w(1) u(1) by (simp add: civil_eq_iff)
qed

theorem plus_minus_roundtrip_witness:
  "civil_value second_tag (mk_fields 1970 1 1 0 0 0) \<and> int64_min \<le> int64_min \<and>
   int64_min \<le> int64_max \<and>
   (\<exists>w u. civil_plus second_tag (mk_fields 1970 1 1 0 0 0) int64_min = Some w \<and>
      civil_minus second_tag w int64_min = Some u \<and> civil_eq u (mk_fields 1970 1 1 0 0 0) \<and>
      civil_diff second_tag w (mk_fields 1970 1 1 0 0 0) = int64_min)"
proof -
  have h: "civil_value second_tag (mk_fields 1970 1 1 0 0 0)" "int64_min \<le> int64_min"
    "int64_min \<le> int64_max"
    by code_simp+
  show ?thesis
    using h plus_minus_roundtrip [OF h] by blast
qed

text \<open>
  C3, as the specification states it: \<open>b + difference(U, a, b) == a\<close> for all aligned
  values \<open>a\<close> and \<open>b\<close> of a unit. The count of seconds from 1970-01-01 00:00:00 to
  292277026597-01-01 00:00:00 is 9223372036857139200, more than a \<^verbatim>\<open>diff_t\<close> holds:
  \<open>scale_add\<close> overflows, and adding the wrapped difference to the first value gives a
  date of the year -292277022657.
\<close>

theorem plus_difference_overflow_counterexample:
  "civil_value second_tag (mk_fields 292277026597 1 1 0 0 0) \<and>
   civil_value second_tag (mk_fields 1970 1 1 0 0 0) \<and>
   in_int64 (year (mk_fields 292277026597 1 1 0 0 0)) \<and>
   in_int64 (year (mk_fields 1970 1 1 0 0 0)) \<and>
   difference second_tag (mk_fields 292277026597 1 1 0 0 0) (mk_fields 1970 1 1 0 0 0) =
     9223372036857139200 \<and>
   \<not> in_int64 9223372036857139200 \<and>
   difference64 second_tag (mk_fields 292277026597 1 1 0 0 0) (mk_fields 1970 1 1 0 0 0) =
     - 9223372036852412416 \<and>
   civil_plus64 second_tag (mk_fields 1970 1 1 0 0 0)
     (difference64 second_tag (mk_fields 292277026597 1 1 0 0 0) (mk_fields 1970 1 1 0 0 0)) =
     Some (mk_fields (- 292277022657) 2 23 16 59 44) \<and>
   \<not> civil_eq (mk_fields (- 292277022657) 2 23 16 59 44) (mk_fields 292277026597 1 1 0 0 0)"
  by code_simp

text \<open>
  C3, amended: for values \<open>a\<close> and \<open>b\<close> of the same unit \<open>T\<close> whose difference in units of
  \<open>T\<close> is representable as a signed 64-bit integer, \<open>b + difference(T, a, b) == a\<close>, on
  64-bit integers.
\<close>

theorem plus_difference64:
  assumes "civil_value T a" "civil_value T b" "in_int64 (year a)" "in_int64 (year b)"
    "in_int64 (difference T a b)"
  shows "\<exists>w. civil_plus64 T b (difference64 T a b) = Some w \<and> civil_eq w a"
proof -
  have n: "normalized a" "normalized b"
    using assms(1,2) by (simp_all add: civil_value_def)
  have d: "difference64 T a b = difference T a b"
    by (rule difference64_eq [OF n assms(3,4,5)])
  obtain w where w: "civil_plus T b (difference T a b) = Some w" "civil_eq w a"
    using plus_difference_exact [OF assms(1,2)] by blast
  then have "in_int64 (year w)" using assms(3) by (simp add: civil_eq_iff)
  then have "civil_plus64 T b (difference T a b) = Some w"
    by (rule civil_plus64_eq [OF assms(2,4) w(1)])
  then show ?thesis using w(2) d by simp
qed

theorem plus_difference64_witness:
  "civil_value hour_tag (mk_fields 2016 3 1 5 0 0) \<and>
   civil_value hour_tag (mk_fields 2016 2 28 23 0 0) \<and>
   in_int64 (year (mk_fields 2016 3 1 5 0 0)) \<and> in_int64 (year (mk_fields 2016 2 28 23 0 0)) \<and>
   in_int64 (difference hour_tag (mk_fields 2016 3 1 5 0 0) (mk_fields 2016 2 28 23 0 0)) \<and>
   (\<exists>w. civil_plus64 hour_tag (mk_fields 2016 2 28 23 0 0)
          (difference64 hour_tag (mk_fields 2016 3 1 5 0 0) (mk_fields 2016 2 28 23 0 0)) =
          Some w \<and>
        civil_eq w (mk_fields 2016 3 1 5 0 0))"
proof -
  have h: "civil_value hour_tag (mk_fields 2016 3 1 5 0 0)"
    "civil_value hour_tag (mk_fields 2016 2 28 23 0 0)"
    "in_int64 (year (mk_fields 2016 3 1 5 0 0))" "in_int64 (year (mk_fields 2016 2 28 23 0 0))"
    "in_int64 (difference hour_tag (mk_fields 2016 3 1 5 0 0) (mk_fields 2016 2 28 23 0 0))"
    by code_simp+
  show ?thesis
    using h plus_difference64 [OF h] by blast
qed

text \<open>
  C4. On unbounded integers \<open>day_difference\<close> is the difference of the day numbers of the
  two dates: taking the years modulo 400, and moving two cycles of 146097 days between the
  two accumulators when their signs disagree, does not change the value.
\<close>

theorem day_difference_exact:
  "day_difference y1 m1 d1 y2 m2 d2 = ymd_ord y1 m1 d1 - ymd_ord y2 m2 d2"
  by (rule day_difference_eq)

text \<open>
  C5, as the specification states it: the accessors of every field finer than the unit of
  a value return zero, for example \<open>month()\<close> and \<open>day()\<close> of a year-unit value. The code
  aligns the month and the day to 1, their least canonical value: the value constructed
  from the year 2016 alone has month 1 and day 1.
\<close>

theorem finer_fields_zero_counterexample:
  "make_y year_tag 2016 = Some (mk_fields 2016 1 1 0 0 0) \<and>
   civil_value year_tag (mk_fields 2016 1 1 0 0 0) \<and>
   month (mk_fields 2016 1 1 0 0 0) \<noteq> 0 \<and> day (mk_fields 2016 1 1 0 0 0) \<noteq> 0 \<and>
   make month_tag 2016 7 15 10 30 45 = Some (mk_fields 2016 7 1 0 0 0) \<and>
   day (mk_fields 2016 7 1 0 0 0) \<noteq> 0"
  by code_simp

text \<open>
  C5, amended: in a value of unit \<open>T\<close> every field finer than \<open>T\<close> reads as its least
  canonical value, which is 1 for the month and the day and 0 for the hour, the minute
  and the second.
\<close>

theorem finer_fields_minimum:
  assumes "civil_value T v"
  shows "(tag_rank T < 1 \<longrightarrow> month v = 1) \<and> (tag_rank T < 2 \<longrightarrow> day v = 1) \<and>
         (tag_rank T < 3 \<longrightarrow> hour v = 0) \<and> (tag_rank T < 4 \<longrightarrow> minute v = 0) \<and>
         (tag_rank T < 5 \<longrightarrow> second v = 0)"
  using assms by (cases T) (simp_all add: civil_value_def mk_fields_eq_iff)

theorem finer_fields_minimum_witness:
  "civil_value year_tag (mk_fields 2016 1 1 0 0 0) \<and> tag_rank year_tag < 1 \<and>
   month (mk_fields 2016 1 1 0 0 0) = 1 \<and> day (mk_fields 2016 1 1 0 0 0) = 1 \<and>
   hour (mk_fields 2016 1 1 0 0 0) = 0 \<and> minute (mk_fields 2016 1 1 0 0 0) = 0 \<and>
   second (mk_fields 2016 1 1 0 0 0) = 0"
proof -
  have h: "civil_value year_tag (mk_fields 2016 1 1 0 0 0)"
    by code_simp
  show ?thesis
    using h finer_fields_minimum [OF h] by simp
qed

text \<open>
  C6. The constructor normalizes out-of-range fields: \<open>make(2016, 2, 30) == make(2016, 3, 1)\<close>,
  \<open>make(1, 13, 1) == make(2, 1, 1)\<close> and
  \<open>make(1970, 1, 1, -1, 0, 0) == make(1969, 12, 31, 23, 0, 0)\<close>, for values of unit second.
\<close>

theorem make_fixtures:
  "make_ymd second_tag 2016 2 30 = Some (mk_fields 2016 3 1 0 0 0) \<and>
   make_ymd second_tag 2016 3 1 = Some (mk_fields 2016 3 1 0 0 0) \<and>
   make_ymd second_tag 1 13 1 = Some (mk_fields 2 1 1 0 0 0) \<and>
   make_ymd second_tag 2 1 1 = Some (mk_fields 2 1 1 0 0 0) \<and>
   make second_tag 1970 1 1 (- 1) 0 0 = Some (mk_fields 1969 12 31 23 0 0) \<and>
   make second_tag 1969 12 31 23 0 0 = Some (mk_fields 1969 12 31 23 0 0) \<and>
   civil_eq (mk_fields 2016 3 1 0 0 0) (mk_fields 2016 3 1 0 0 0)"
  by code_simp

text \<open>
  C7. In \<open>n_day\<close>, called with a month in [1, 12] as all its callers do, the century loop
  advances at most 4 times, the 4-year loop at most 25 times, the single-year loop at
  most 4 times and the month loop at most 11 times, whatever the day \<open>d\<close> and the day
  delta \<open>cd\<close>; and \<open>n_day\<close> returns. The ghost counters count the passes that advance.
  For the first three loops the bounds hold with the pass that leaves at \<^verbatim>\<open>break\<close> counted
  as well (\<open>Suc\<close> of the counter); the month loop can advance 11 times and then leave on
  its twelfth pass. The loops are total functions by well-founded recursion: see their
  termination proofs.
\<close>

theorem n_day_pass_bounds:
  assumes "1 \<le> m" "m \<le> 12"
  shows "\<exists>c100 c4 c1 cm f.
           n_day_passes y m d cd = Some (c100, c4, c1, cm) \<and>
           c100 \<le> 4 \<and> c4 \<le> 25 \<and> c1 \<le> 4 \<and> cm \<le> 11 \<and>
           Suc c100 \<le> 4 \<and> Suc c4 \<le> 25 \<and> Suc c1 \<le> 4 \<and>
           n_day y m d cd hh mm ss = Some f"
proof -
  obtain ey' m' d' n' c100 c4 c1 cm where r:
    "n_day_run y m d cd = Some ((ey', m', d'), (c100, c4, c1, cm))"
    "c100 \<le> 3" "c4 \<le> 24" "c1 \<le> 3" "cm \<le> 11"
    using n_day_run_spec [OF assms, of y d cd] by blast
  then show ?thesis
    by (simp add: n_day_passes_def n_day_def)
qed

theorem n_day_pass_bounds_witness:
  "(1::int) \<le> 3 \<and> (3::int) \<le> 12 \<and>
   n_day_passes 1600 3 1 146095 = Some (3, 24, 3, 11) \<and>
   n_day 1600 3 1 146095 0 0 0 = Some (mk_fields 2000 2 28 0 0 0)"
proof -
  have h: "(1::int) \<le> 3" "(3::int) \<le> 12" by simp_all
  have "n_day_passes 1600 3 1 146095 = Some (3, 24, 3, 11)"
    "n_day 1600 3 1 146095 0 0 0 = Some (mk_fields 2000 2 28 0 0 0)"
    by code_simp+
  then show ?thesis
    using h n_day_pass_bounds [OF h, of 1600 1 146095 0 0 0] by simp
qed




text \<open>
  C9. The weekday of 1970-01-01 is Thursday and the weekday of 2000-01-01 is Saturday.
\<close>

theorem weekday_fixtures:
  "make_ymd day_tag 1970 1 1 = Some (mk_fields 1970 1 1 0 0 0) \<and>
   get_weekday (convert second_tag (mk_fields 1970 1 1 0 0 0)) = Some thursday \<and>
   make_ymd day_tag 2000 1 1 = Some (mk_fields 2000 1 1 0 0 0) \<and>
   get_weekday (convert second_tag (mk_fields 2000 1 1 0 0 0)) = Some saturday"
  by code_simp

text \<open>
  C10. A default-constructed value of any unit \<open>T\<close> is 1970-01-01 00:00:00: its fields
  are canonical, alignment to \<open>T\<close> leaves them unchanged, and they are the fields of the
  value constructed from the year 1970 alone.
\<close>

theorem default_is_epoch:
  "year civil_default = 1970 \<and> month civil_default = 1 \<and> day civil_default = 1 \<and>
   hour civil_default = 0 \<and> minute civil_default = 0 \<and> second civil_default = 0 \<and>
   normalized civil_default \<and> align T civil_default = civil_default \<and>
   (\<exists>v. make_y T 1970 = Some v \<and> civil_eq civil_default v)"
proof -
  have "make_y T 1970 = Some civil_default"
    by (cases T; hypsubst; code_simp)
  moreover have "normalized civil_default" "align T civil_default = civil_default"
    using civil_default_value [of T] by (simp_all add: civil_value_def)
  ultimately show ?thesis
    by (simp add: civil_eq_iff) (simp add: civil_default_def)
qed

end
